theory Spec2Isabelle
  imports Main "HOL-Library.Multiset" "HOL-Library.Word"
begin

section \<open>C strings in a character array\<close>

text \<open>
  A character array is a list of bytes and a pointer into it is an index; a pointer
  that may be \<open>NULL\<close> is an \<open>option\<close>. The list holds the bytes of the array up to (not
  including) the terminating NUL of the string the caller passed, so a read at or past
  the end of the list yields NUL. The parser writes NUL bytes inside the list while it
  works; a C string starting at an index ends at the first NUL after it.
\<close>

abbreviation NUL :: char where
  "NUL \<equiv> CHR 0x00"

definition peek :: "char list \<Rightarrow> nat \<Rightarrow> char" where
  "peek buf p = (if p < length buf then buf ! p else NUL)"

lemma peek_list [code]:
  "peek [] p = NUL"
  "peek (c # cs) 0 = c"
  "peek (c # cs) (Suc p) = peek cs p"
  by (simp_all add: peek_def)

definition cstr :: "char list \<Rightarrow> nat \<Rightarrow> char list" where
  "cstr buf p = takeWhile (\<lambda>c. c \<noteq> NUL) (drop p buf)"

definition strlen :: "char list \<Rightarrow> nat \<Rightarrow> nat" where
  "strlen buf p = length (cstr buf p)"

fun find_first :: "char \<Rightarrow> char list \<Rightarrow> nat option" where
  "find_first c [] = None"
| "find_first c (x # xs) = (if x = c then Some 0 else map_option Suc (find_first c xs))"

fun find_last :: "char \<Rightarrow> char list \<Rightarrow> nat option" where
  "find_last c [] = None"
| "find_last c (x # xs) =
     (case find_last c xs of
        Some k \<Rightarrow> Some (Suc k)
      | None \<Rightarrow> (if x = c then Some 0 else None))"

definition strchr :: "char list \<Rightarrow> nat \<Rightarrow> char \<Rightarrow> nat option" where
  "strchr buf p c = map_option (\<lambda>k. p + k) (find_first c (cstr buf p))"

definition strrchr :: "char list \<Rightarrow> nat \<Rightarrow> char \<Rightarrow> nat option" where
  "strrchr buf p c = map_option (\<lambda>k. p + k) (find_last c (cstr buf p))"

definition memchr :: "char list \<Rightarrow> nat \<Rightarrow> char \<Rightarrow> nat \<Rightarrow> nat option" where
  "memchr buf p c n = map_option (\<lambda>k. p + k) (find_first c (take n (drop p buf)))"

definition strspn :: "char list \<Rightarrow> nat \<Rightarrow> char list \<Rightarrow> nat" where
  "strspn buf p accept = length (takeWhile (\<lambda>c. c \<in> set accept) (cstr buf p))"

text \<open>
  \<open>strncmp(s, t, n) == 0\<close> for two strings given by their characters: the first \<open>n\<close>
  characters agree, where a string that ends earlier contributes its NUL.
\<close>

definition strncmp_eq :: "char list \<Rightarrow> char list \<Rightarrow> nat \<Rightarrow> bool" where
  "strncmp_eq s t n = (take n (s @ [NUL]) = take n (t @ [NUL]))"

text \<open>
  \<open>strncat(dest, src, n)\<close>: at most \<open>n\<close> characters of the string \<open>src\<close> are written
  over the terminator of \<open>dest\<close>, followed by a new terminating NUL. The bytes of \<open>dest\<close>
  before its terminator and those after the new one stay as they are; a write past the
  end of the list makes it longer.
\<close>

definition strncat :: "char list \<Rightarrow> char list \<Rightarrow> nat \<Rightarrow> char list" where
  "strncat dest src n =
     cstr dest 0 @ take n (cstr src 0) @ [NUL]
       @ drop (strlen dest 0 + length (take n (cstr src 0)) + 1) dest"

definition isdigit :: "char \<Rightarrow> bool" where
  "isdigit c = (let k = (of_char c :: nat) in 48 \<le> k \<and> k \<le> 57)"

definition isxdigit :: "char \<Rightarrow> bool" where
  "isxdigit c = (let k = (of_char c :: nat) in
     (48 \<le> k \<and> k \<le> 57) \<or> (65 \<le> k \<and> k \<le> 70) \<or> (97 \<le> k \<and> k \<le> 102))"

text \<open>The value of one hexadecimal digit, as \<open>strtoul(_, NULL, 16)\<close> reads it.\<close>

definition hexval :: "char \<Rightarrow> nat" where
  "hexval c = (let k = (of_char c :: nat) in
     if k \<le> 57 then k - 48 else if k \<le> 70 then k - 55 else k - 87)"

section \<open>Constants and data of gs1dlparser.h\<close>

definition GS1_DL_MAX_AI_LEN :: nat where
  "GS1_DL_MAX_AI_LEN = 90"

definition GS1_DL_MAX_AIS :: nat where
  "GS1_DL_MAX_AIS = 64"

definition GS1_DL_MAX_AI_BUF :: nat where
  "GS1_DL_MAX_AI_BUF = GS1_DL_MAX_AIS * (4 + GS1_DL_MAX_AI_LEN)"

text \<open>
  \<open>struct gs1AIelement\<close>: \<open>ai\<close> and \<open>val\<close> (the field \<open>value\<close>) are pointers into
  \<open>aiBuf\<close>, kept as offsets. Both lengths have passed the capacity check of
  \<open>writeAIbuf\<close> when they are stored, so the casts to \<open>short\<close> keep their values.
\<close>

record gs1AIelement =
  ai :: nat
  ailen :: nat
  val :: nat
  vallen :: nat
  fnc1 :: bool

text \<open>
  \<open>struct gs1DLparser\<close>. \<open>aiBuf\<close> lists the bytes of the array \<open>char
  aiBuf[GS1_DL_MAX_AI_BUF]\<close> from index 0 on; the bytes after the end of the list are
  NUL (that is how \<open>peek\<close> and \<open>cstr\<close> read them), and the list grows when a byte is
  written past its end, so a list longer than \<open>GS1_DL_MAX_AI_BUF\<close> has been written
  outside the array. \<open>aiData\<close> is the array of elements, indexed from 0. \<open>err\<close> holds
  the characters of the message.
\<close>

record gs1DLparser =
  aiBuf :: "char list"
  aiData :: "nat \<Rightarrow> gs1AIelement"
  numAIs :: nat
  err :: "char list"

section \<open>Tables and helpers of the parser\<close>

definition uriCharacters :: "char list" where
  "uriCharacters =
     ''ABCDEFGHIJKLMNOPQRSTUVWXYZabcdefghijklmnopqrstuvwxyz0123456789-._~:/?#[]@!$&''
     @ [CHR 0x27] @ ''()*+,;=%''"

definition dl_pkeys :: "char list list" where
  "dl_pkeys = [''00'', ''01'', ''253'', ''255'', ''401'', ''402'', ''414'', ''417'',
     ''8003'', ''8004'', ''8006'', ''8010'', ''8013'', ''8017'', ''8018'']"

definition isDLpkey :: "char list \<Rightarrow> nat \<Rightarrow> nat \<Rightarrow> bool" where
  "isDLpkey buf a alen =
     list_ex (\<lambda>k. length k = alen \<and> strncmp_eq (cstr buf a) k alen) dl_pkeys"

definition fixedAIprefixes :: "char list list" where
  "fixedAIprefixes = [''00'', ''01'', ''02'', ''03'', ''04'',
     ''11'', ''12'', ''13'', ''14'', ''15'', ''16'', ''17'', ''18'', ''19'',
     ''20'', ''31'', ''32'', ''33'', ''34'', ''35'', ''36'', ''41'']"

definition isFNC1required :: "char list \<Rightarrow> nat \<Rightarrow> bool" where
  "isFNC1required buf a =
     (\<not> list_ex (\<lambda>k. strncmp_eq k (cstr buf a) 2) fixedAIprefixes)"

definition allDigits :: "char list \<Rightarrow> nat \<Rightarrow> nat \<Rightarrow> bool" where
  "allDigits buf p len = list_all (\<lambda>i. isdigit (peek buf (p + i))) [0..<len]"

text \<open>
  \<open>i < inlen - 2\<close> on \<open>size_t\<close>: the subtraction wraps around when \<open>inlen < 2\<close>.
\<close>

definition size_t_less_sub2 :: "nat \<Rightarrow> nat \<Rightarrow> bool" where
  "size_t_less_sub2 i inlen = ((word_of_nat i :: 64 word) < word_of_nat inlen - 2)"

text \<open>
  \<open>URIunescape(out, maxlen, in, inlen, is_query_component)\<close>. The output array is a
  function from index to byte; \<open>src\<close> is the index of \<open>in\<close> in \<open>buf\<close>. The result is
  the array and the returned length \<open>j\<close>.
\<close>

function URIunescape_loop ::
  "char list \<Rightarrow> nat \<Rightarrow> nat \<Rightarrow> nat \<Rightarrow> bool \<Rightarrow> nat \<Rightarrow> nat \<Rightarrow> (nat \<Rightarrow> char) \<Rightarrow> (nat \<Rightarrow> char) \<times> nat"
where
  "URIunescape_loop buf src inlen maxlen is_query i j out =
     (if i < inlen \<and> j < maxlen then
        (if size_t_less_sub2 i inlen \<and> peek buf (src + i) = CHR ''%''
            \<and> isxdigit (peek buf (src + i + 1)) \<and> isxdigit (peek buf (src + i + 2))
         then URIunescape_loop buf src inlen maxlen is_query (i + 3) (j + 1)
                (out(j := char_of (16 * hexval (peek buf (src + i + 1))
                                    + hexval (peek buf (src + i + 2)))))
         else if is_query \<and> peek buf (src + i) = CHR ''+''
         then URIunescape_loop buf src inlen maxlen is_query (i + 1) (j + 1)
                (out(j := CHR '' ''))
         else URIunescape_loop buf src inlen maxlen is_query (i + 1) (j + 1)
                (out(j := peek buf (src + i))))
      else (out(j := NUL), j))"
  by pat_completeness auto
termination
  by (relation "measure (\<lambda>(buf, src, inlen, maxlen, is_query, i, j, out). inlen - i)") auto

definition URIunescape ::
  "(nat \<Rightarrow> char) \<Rightarrow> nat \<Rightarrow> char list \<Rightarrow> nat \<Rightarrow> nat \<Rightarrow> bool \<Rightarrow> (nat \<Rightarrow> char) \<times> nat" where
  "URIunescape out maxlen buf src inlen is_query =
     URIunescape_loop buf src inlen maxlen is_query 0 0 out"


section \<open>The parser\<close>

subsection \<open>Facts about the string functions used for termination\<close>

lemma find_first_less: "find_first c s = Some k \<Longrightarrow> k < length s"
  by (induction s arbitrary: k) (auto split: if_splits)

lemma find_last_less: "find_last c s = Some k \<Longrightarrow> k < length s"
  by (induction s arbitrary: k) (auto split: option.splits if_splits)

lemma strlen_le: "p + strlen buf p \<le> max p (length buf)"
proof -
  have "length (takeWhile (\<lambda>c. c \<noteq> NUL) (drop p buf)) \<le> length (drop p buf)"
    by (rule length_takeWhile_le)
  then show ?thesis by (simp add: strlen_def cstr_def)
qed

lemma strchr_range:
  assumes "strchr buf p c = Some r"
  shows "p \<le> r" and "r < p + strlen buf p" and "r < length buf"
proof -
  from assms obtain k where k: "find_first c (cstr buf p) = Some k" and r: "r = p + k"
    by (auto simp: strchr_def)
  from find_first_less [OF k] have kl: "k < strlen buf p" by (simp add: strlen_def)
  show "p \<le> r" using r by simp
  show "r < p + strlen buf p" using r kl by simp
  have "strlen buf p \<le> length buf - p"
    using length_takeWhile_le [of "\<lambda>c. c \<noteq> NUL" "drop p buf"]
    by (simp add: strlen_def cstr_def)
  then show "r < length buf" using r kl by simp
qed

lemma strrchr_range:
  assumes "strrchr buf p c = Some r"
  shows "p \<le> r" and "r < p + strlen buf p" and "r < length buf"
proof -
  from assms obtain k where k: "find_last c (cstr buf p) = Some k" and r: "r = p + k"
    by (auto simp: strrchr_def)
  from find_last_less [OF k] have kl: "k < strlen buf p" by (simp add: strlen_def)
  show "p \<le> r" using r by simp
  show "r < p + strlen buf p" using r kl by simp
  have "strlen buf p \<le> length buf - p"
    using length_takeWhile_le [of "\<lambda>c. c \<noteq> NUL" "drop p buf"]
    by (simp add: strlen_def cstr_def)
  then show "r < length buf" using r kl by simp
qed

lemma cstr_chop:
  assumes "p \<le> q" and "q < length buf"
  shows "cstr (buf[q := NUL]) p = takeWhile (\<lambda>c. c \<noteq> NUL) (take (q - p) (drop p buf))"
proof -
  have "drop p (buf[q := NUL]) = take (q - p) (drop p buf) @ NUL # drop (Suc q) buf"
    using assms by (simp add: drop_update_swap upd_conv_take_nth_drop drop_take)
  then show ?thesis
    by (auto simp: cstr_def takeWhile_append
          intro!: takeWhile_eq_all_conv [THEN iffD2, symmetric])
qed

lemma strlen_chop:
  assumes "p \<le> q" and "q < length buf"
  shows "strlen (buf[q := NUL]) p \<le> q - p"
proof -
  have "length (takeWhile (\<lambda>c. c \<noteq> NUL) (take (q - p) (drop p buf)))
          \<le> length (take (q - p) (drop p buf))"
    by (rule length_takeWhile_le)
  then show ?thesis
    using assms by (simp add: strlen_def cstr_chop)
qed

subsection \<open>The backward search for the primary key\<close>

text \<open>
  The \<open>while ((r = strrchr(pi, '/')) != NULL)\<close> loop. \<open>pinfo\<close> is \<open>pi\<close>; \<open>p\<close> is the
  pointer the previous pass left (where it chopped the string, or \<open>pi\<close> at the start).
  The result is the array as the loop leaves it, and \<open>dp\<close>.
\<close>

function scan_back :: "char list \<Rightarrow> nat \<Rightarrow> nat \<Rightarrow> char list \<times> nat option" where
  "scan_back buf pinfo p =
     (case strrchr buf pinfo CHR ''/'' of
        None \<Rightarrow> (buf, None)
      | Some r \<Rightarrow>
          (case strrchr (buf[p := CHR ''/'', r := NUL]) pinfo CHR ''/'' of
             None \<Rightarrow> (buf[p := CHR ''/'', r := NUL, r := CHR ''/''], None)
           | Some q \<Rightarrow>
               (if r - q - 1 < 2 \<or> r - q - 1 > 4
                   \<or> \<not> allDigits (buf[p := CHR ''/'', r := NUL, r := CHR ''/'']) (q + 1) (r - q - 1)
                then (buf[p := CHR ''/'', r := NUL, r := CHR ''/''], None)
                else if isDLpkey (buf[p := CHR ''/'', r := NUL, r := CHR ''/'']) (q + 1) (r - q - 1)
                then (buf[p := CHR ''/'', r := NUL, r := CHR ''/''], Some q)
                else scan_back (buf[p := CHR ''/'', r := NUL, r := CHR ''/'', q := NUL]) pinfo q)))"
  by pat_completeness auto
termination
proof (relation "measure (\<lambda>(buf, pinfo, p). strlen buf pinfo)", goal_cases)
  case 1
  show ?case by simp
next
  case (2 buf pinfo p r q)
  from strrchr_range [OF 2(1)] have r: "pinfo \<le> r" "r < pinfo + strlen buf pinfo" "r < length buf"
    by simp_all
  from strrchr_range [OF 2(2)]
  have q: "pinfo \<le> q" "q < pinfo + strlen (buf[p := CHR ''/'', r := NUL]) pinfo" "q < length buf"
    by simp_all
  have "strlen (buf[p := CHR ''/'', r := NUL]) pinfo \<le> r - pinfo"
    using strlen_chop [of pinfo r "buf[p := CHR ''/'']"] r by simp
  with q have qr: "q < r" by simp
  have "strlen (buf[p := CHR ''/'', r := NUL, r := CHR ''/'', q := NUL]) pinfo \<le> q - pinfo"
    using strlen_chop [of pinfo q "buf[p := CHR ''/'', r := NUL, r := CHR ''/'']"] q by simp
  with qr r q show ?case by simp
qed


subsection \<open>Storing one element\<close>

text \<open>
  The three ways a block of the parser hands over control: on to the next statement
  (with the local array \<open>aival\<close> and the context), \<open>goto fail\<close> (with the context as it
  is then), or a dereference of \<open>NULL\<close>.
\<close>

datatype flow = Continue "nat \<Rightarrow> char" gs1DLparser | GotoFail gs1DLparser | Crash

text \<open>
  The macro \<open>writeAIbuf(v, l)\<close>; \<open>None\<close> is its \<open>goto fail\<close>. \<open>v\<close> lists the bytes from
  the source pointer on.
\<close>

definition writeAIbuf :: "gs1DLparser \<Rightarrow> char list \<Rightarrow> nat \<Rightarrow> gs1DLparser option" where
  "writeAIbuf ctx v l =
     (if strlen (aiBuf ctx) 0 + l > GS1_DL_MAX_AI_BUF then None
      else Some (ctx\<lparr>aiBuf := strncat (aiBuf ctx) v l\<rparr>))"

text \<open>
  The loop \<open>for (i = 0; i <= 13; i++) aival[13-i] = vallen >= i+1 ? aival[vallen-i-1] : '0'\<close>
  and the terminator written after it.
\<close>

definition pad_gtin14 :: "(nat \<Rightarrow> char) \<Rightarrow> nat \<Rightarrow> (nat \<Rightarrow> char)" where
  "pad_gtin14 aival vlen =
     (fold (\<lambda>i a. a(13 - i := (if vlen \<ge> i + 1 then a (vlen - i - 1) else CHR ''0'')))
        [0..<14] aival)(14 := NUL)"

text \<open>The special handling of AI (01): the array and the length after it.\<close>

definition gtin_special :: "char list \<Rightarrow> nat \<Rightarrow> nat \<Rightarrow> (nat \<Rightarrow> char) \<Rightarrow> nat \<Rightarrow> (nat \<Rightarrow> char) \<times> nat" where
  "gtin_special buf a alen aival vlen =
     (if alen = 2 \<and> strncmp_eq (cstr buf a) ''01'' 2 \<and> (vlen = 13 \<or> vlen = 12 \<or> vlen = 8)
      then (pad_gtin14 aival vlen, 14)
      else (aival, vlen))"

text \<open>
  The code both loops run on a decoded value: the padding of AI (01), the two writes to
  \<open>aiBuf\<close> and the new entry of \<open>aiData\<close>. \<open>a\<close> and \<open>alen\<close> are the AI in \<open>buf\<close>; the
  array \<open>aival\<close> has \<open>GS1_DL_MAX_AI_LEN + 1\<close> bytes.
\<close>

definition store_element ::
  "gs1DLparser \<Rightarrow> char list \<Rightarrow> nat \<Rightarrow> nat \<Rightarrow> (nat \<Rightarrow> char) \<Rightarrow> nat \<Rightarrow> flow" where
  "store_element ctx buf a alen aival vlen =
     (case gtin_special buf a alen aival vlen of
        (aival1, vlen1) \<Rightarrow>
          (case writeAIbuf ctx (drop a buf) alen of
             None \<Rightarrow> GotoFail ctx
           | Some ctx1 \<Rightarrow>
               (case writeAIbuf ctx1 (map aival1 [0..<GS1_DL_MAX_AI_LEN + 1]) vlen1 of
                  None \<Rightarrow> GotoFail ctx1
                | Some ctx2 \<Rightarrow>
                    (if numAIs ctx2 < GS1_DL_MAX_AIS
                     then Continue aival1
                       (ctx2\<lparr>aiData := (aiData ctx2)(numAIs ctx2 :=
                                \<lparr>ai = strlen (aiBuf ctx) 0, ailen = alen,
                                 val = strlen (aiBuf ctx1) 0, vallen = vlen1,
                                 fnc1 = isFNC1required (aiBuf ctx2) (strlen (aiBuf ctx) 0)\<rparr>),
                             numAIs := numAIs ctx2 + 1\<rparr>)
                     else GotoFail (ctx2\<lparr>err := ''Too many AIs''\<rparr>)))))"

subsection \<open>The path loop\<close>

text \<open>\<open>%.*s\<close> with precision \<open>n\<close> on the string at \<open>p\<close>.\<close>

definition prec_s :: "nat \<Rightarrow> char list \<Rightarrow> nat \<Rightarrow> char list" where
  "prec_s n buf p = take n (cstr buf p)"

text \<open>The end of the value that starts at \<open>r\<close>: the next slash, or the end of the string.\<close>

definition value_end :: "char list \<Rightarrow> nat \<Rightarrow> nat" where
  "value_end buf r =
     (case strchr buf r CHR ''/'' of Some q \<Rightarrow> q | None \<Rightarrow> r + strlen buf r)"

lemma value_end_ge: "r \<le> value_end buf r"
  by (auto simp: value_end_def dest: strchr_range(1) split: option.splits)

lemma peek_nonzero_less: "peek buf p \<noteq> NUL \<Longrightarrow> p < length buf"
  by (simp add: peek_def split: if_splits)

text \<open>The loop \<open>while (*p)\<close> over the pairs of the DL path info, from \<open>dp\<close> on.\<close>

function path_loop :: "char list \<Rightarrow> nat \<Rightarrow> (nat \<Rightarrow> char) \<Rightarrow> gs1DLparser \<Rightarrow> flow" where
  "path_loop buf p aival ctx =
     (if peek buf p = NUL then Continue aival ctx
      else
        (case strchr buf (p + 1) CHR ''/'' of
           None \<Rightarrow> Crash
         | Some r \<Rightarrow>
             (if value_end buf (r + 1) = r + 1
              then GotoFail (ctx\<lparr>err := take 127
                     (''AI ('' @ prec_s (r - (p + 1)) buf (p + 1)
                        @ '') value path element is empty'')\<rparr>)
              else
                (case URIunescape aival GS1_DL_MAX_AI_LEN buf (r + 1)
                        (value_end buf (r + 1) - (r + 1)) False of
                   (aival1, vlen) \<Rightarrow>
                     (if vlen = 0
                      then GotoFail (ctx\<lparr>err := ''Decoded AI ('' @ prec_s (r - (p + 1)) buf (p + 1)
                             @ '') from DL path info too long''\<rparr>)
                      else
                        (case store_element ctx buf (p + 1) (r - (p + 1)) aival1 vlen of
                           Continue aival2 ctx2 \<Rightarrow>
                             path_loop buf (value_end buf (r + 1)) aival2 ctx2
                         | GotoFail c \<Rightarrow> GotoFail c
                         | Crash \<Rightarrow> Crash))))))"
  by pat_completeness auto
termination
proof (relation "measure (\<lambda>(buf, p, aival, ctx). length buf - p)", goal_cases)
  case 1
  show ?case by simp
next
  case (2 buf p aival ctx r)
  from 2(1) have "p < length buf" by (rule peek_nonzero_less)
  moreover from strchr_range(1) [OF 2(2)] have "p < r" by simp
  moreover have "r + 1 \<le> value_end buf (r + 1)" by (rule value_end_ge)
  ultimately show ?case by simp
qed

subsection \<open>The query loop\<close>

text \<open>\<open>while (*p == '&') p++\<close>.\<close>

definition skip_amp :: "char list \<Rightarrow> nat \<Rightarrow> nat" where
  "skip_amp buf p = p + length (takeWhile (\<lambda>c. c = CHR ''&'') (drop p buf))"

text \<open>The end of the parameter that starts at \<open>p\<close>: the next \<open>&\<close>, or the end of the string.\<close>

definition param_end :: "char list \<Rightarrow> nat \<Rightarrow> nat" where
  "param_end buf p =
     (case strchr buf p CHR ''&'' of Some q \<Rightarrow> q | None \<Rightarrow> p + strlen buf p)"

lemma param_end_ge: "p \<le> param_end buf p"
  by (auto simp: param_end_def dest: strchr_range(1) split: option.splits)

lemma skip_amp_ge: "p \<le> skip_amp buf p"
  by (simp add: skip_amp_def)

lemma query_advance:
  assumes "peek buf p \<noteq> NUL"
  shows "p < param_end buf (skip_amp buf p)"
proof (cases "peek buf p = CHR ''&''")
  case True
  from assms have pl: "p < length buf" by (rule peek_nonzero_less)
  then have "drop p buf = buf ! p # drop (Suc p) buf"
    by (simp add: Cons_nth_drop_Suc)
  with True pl have "p < skip_amp buf p"
    by (simp add: skip_amp_def peek_def)
  with param_end_ge [of "skip_amp buf p" buf] show ?thesis by simp
next
  case False
  from assms have pl: "p < length buf" by (rule peek_nonzero_less)
  then have d: "drop p buf = buf ! p # drop (Suc p) buf"
    by (simp add: Cons_nth_drop_Suc)
  with False pl have s: "skip_amp buf p = p"
    by (simp add: skip_amp_def peek_def)
  from d assms False pl show ?thesis
    by (auto simp: s param_end_def strchr_def strlen_def cstr_def peek_def split: option.splits)
qed

function query_loop :: "char list \<Rightarrow> nat \<Rightarrow> (nat \<Rightarrow> char) \<Rightarrow> gs1DLparser \<Rightarrow> flow" where
  "query_loop buf p aival ctx =
     (if peek buf p = NUL then Continue aival ctx
      else
        (case memchr buf (skip_amp buf p) CHR ''=''
                (param_end buf (skip_amp buf p) - skip_amp buf p) of
           None \<Rightarrow> query_loop buf (param_end buf (skip_amp buf p)) aival ctx
         | Some e \<Rightarrow>
             (if allDigits buf (skip_amp buf p) (e - skip_amp buf p)
              then
                (if e - skip_amp buf p < 2 \<or> e - skip_amp buf p > 4
                 then GotoFail (ctx\<lparr>err :=
                        ''Stopping. Numeric query parameter that is not a valid AI is illegal: ''
                        @ prec_s (if e - skip_amp buf p < 10 then e - skip_amp buf p else 10)
                            buf (skip_amp buf p)
                        @ ''...''\<rparr>)
                 else if param_end buf (skip_amp buf p) = e + 1
                 then GotoFail (ctx\<lparr>err := take 127
                        (''AI ('' @ prec_s (e - skip_amp buf p) buf (skip_amp buf p)
                           @ '') value query element is empty'')\<rparr>)
                 else
                   (case URIunescape aival GS1_DL_MAX_AI_LEN buf (e + 1)
                           (param_end buf (skip_amp buf p) - (e + 1)) True of
                      (aival1, vlen) \<Rightarrow>
                        (if vlen = 0
                         then GotoFail (ctx\<lparr>err :=
                                ''Decoded AI ('' @ prec_s (e - skip_amp buf p) buf (skip_amp buf p)
                                @ '') value from DL query params too long''\<rparr>)
                         else
                           (case store_element ctx buf (skip_amp buf p) (e - skip_amp buf p)
                                   aival1 vlen of
                              Continue aival2 ctx2 \<Rightarrow>
                                query_loop buf (param_end buf (skip_amp buf p)) aival2 ctx2
                            | GotoFail c \<Rightarrow> GotoFail c
                            | Crash \<Rightarrow> Crash))))
              else query_loop buf (param_end buf (skip_amp buf p)) aival ctx)))"
  by pat_completeness auto
termination
proof (relation "measure (\<lambda>(buf, p, aival, ctx). length buf - p)", goal_cases)
  case 1
  show ?case by simp
next
  case (2 buf p aival ctx)
  from peek_nonzero_less [OF 2(1)] query_advance [OF 2(1)] show ?case by simp
next
  case (3 buf p aival ctx e)
  from peek_nonzero_less [OF 3(1)] query_advance [OF 3(1)] show ?case by simp
next
  case (4 buf p aival ctx e)
  from peek_nonzero_less [OF 4(1)] query_advance [OF 4(1)] show ?case by simp
qed


subsection \<open>gs1_parseDLuri\<close>

text \<open>
  The label \<open>out\<close>: the two delimiters are put back, and the function returns \<open>ret\<close>,
  the context and the caller's array. \<open>qp\<close> and \<open>fr\<close> point one past the delimiter.
\<close>

definition parse_out ::
  "bool \<Rightarrow> gs1DLparser \<Rightarrow> char list \<Rightarrow> nat option \<Rightarrow> nat option \<Rightarrow> bool \<times> gs1DLparser \<times> char list"
where
  "parse_out ret ctx buf qp fr =
     (ret, ctx,
      (case fr of
         Some f \<Rightarrow> (case qp of Some q \<Rightarrow> buf[q - 1 := CHR ''?''] | None \<Rightarrow> buf)[f - 1 := CHR ''#'']
       | None \<Rightarrow> (case qp of Some q \<Rightarrow> buf[q - 1 := CHR ''?''] | None \<Rightarrow> buf)))"

text \<open>The label \<open>fail\<close>, which ends in \<open>goto out\<close>.\<close>

definition parse_fail ::
  "gs1DLparser \<Rightarrow> char list \<Rightarrow> nat option \<Rightarrow> nat option \<Rightarrow> bool \<times> gs1DLparser \<times> char list"
where
  "parse_fail ctx buf qp fr =
     parse_out False
       ((if err ctx = [] then ctx\<lparr>err := ''Failed to parse DL data''\<rparr> else ctx)\<lparr>numAIs := 0\<rparr>)
       buf qp fr"

text \<open>The scheme test: the pointer after the scheme, or \<open>None\<close> when neither matches.\<close>

definition skip_scheme :: "char list \<Rightarrow> nat option" where
  "skip_scheme buf =
     (if strlen buf 0 \<ge> 8 \<and> strncmp_eq (cstr buf 0) ''https://'' 8 then Some 8
      else if strlen buf 0 \<ge> 7 \<and> strncmp_eq (cstr buf 0) ''http://'' 7 then Some 7
      else None)"

text \<open>
  The first part of the function, up to the backward search: either the message of an
  early \<open>goto fail\<close>, or \<open>pi\<close>, the array with the fragment and query delimiters
  overwritten by NUL, \<open>qp\<close> and \<open>fr\<close>.
\<close>

definition split_uri ::
  "char list \<Rightarrow> char list + (nat \<times> char list \<times> nat option \<times> nat option)" where
  "split_uri dlData =
     (if strspn dlData 0 uriCharacters \<noteq> strlen dlData 0
      then Inl ''URI contains illegal characters''
      else
        (case skip_scheme dlData of
           None \<Rightarrow> Inl ''Scheme must be http:// or https://''
         | Some p \<Rightarrow>
             (case strchr dlData p CHR ''/'' of
                None \<Rightarrow> Inl ''URI must contain a domain and path info''
              | Some r \<Rightarrow>
                  (if r - p < 1 then Inl ''URI must contain a domain and path info''
                   else
                     (case strchr dlData r CHR ''#'' of
                        None \<Rightarrow>
                          (case strchr dlData r CHR ''?'' of
                             None \<Rightarrow> Inr (r, dlData, None, None)
                           | Some q \<Rightarrow> Inr (r, dlData[q := NUL], Some (q + 1), None))
                      | Some f \<Rightarrow>
                          (case strchr (dlData[f := NUL]) r CHR ''?'' of
                             None \<Rightarrow> Inr (r, dlData[f := NUL], None, Some (f + 1))
                           | Some q \<Rightarrow>
                               Inr (r, dlData[f := NUL, q := NUL], Some (q + 1), Some (f + 1))))))))"

text \<open>
  The local array \<open>aival\<close> is not initialised; no byte of it is read before the parser
  has written it.
\<close>

definition aival_start :: "nat \<Rightarrow> char" where
  "aival_start = (\<lambda>i. NUL)"

text \<open>
  \<open>gs1_parseDLuri(ctx, dlData)\<close>: the returned flag, the context and the caller's array
  after the call; \<open>None\<close> when the path loop dereferences \<open>NULL\<close>. The first three
  statements set \<open>numAIs\<close> to 0 and write a NUL to the first byte of \<open>aiBuf\<close> and of
  \<open>err\<close>; the other bytes of \<open>aiBuf\<close> stay as the caller left them.
\<close>

definition gs1_parseDLuri ::
  "gs1DLparser \<Rightarrow> char list \<Rightarrow> (bool \<times> gs1DLparser \<times> char list) option" where
  "gs1_parseDLuri ctx dlData =
     (case split_uri dlData of
        Inl msg \<Rightarrow>
          Some (parse_fail (ctx\<lparr>numAIs := 0, aiBuf := (aiBuf ctx)[0 := NUL], err := msg\<rparr>)
                  dlData None None)
      | Inr (pinfo, buf, qp, fr) \<Rightarrow>
          (case scan_back buf pinfo pinfo of
             (buf1, None) \<Rightarrow>
               Some (parse_fail
                 (ctx\<lparr>numAIs := 0, aiBuf := (aiBuf ctx)[0 := NUL],
                      err := ''No GS1 DL keys found in path info''\<rparr>)
                 buf1 qp fr)
           | (buf1, Some dp) \<Rightarrow>
               (case path_loop buf1 dp aival_start
                       (ctx\<lparr>numAIs := 0, aiBuf := (aiBuf ctx)[0 := NUL], err := []\<rparr>) of
                  Crash \<Rightarrow> None
                | GotoFail c \<Rightarrow> Some (parse_fail c buf1 qp fr)
                | Continue aival1 ctx1 \<Rightarrow>
                    (case qp of
                       None \<Rightarrow> Some (parse_out True ctx1 buf1 qp fr)
                     | Some q \<Rightarrow>
                         (case query_loop buf1 q aival1 ctx1 of
                            Crash \<Rightarrow> None
                          | GotoFail c \<Rightarrow> Some (parse_fail c buf1 qp fr)
                          | Continue aival2 ctx2 \<Rightarrow> Some (parse_out True ctx2 buf1 qp fr))))))"

section \<open>The writers\<close>

text \<open>
  Each writer's result lists the bytes it wrote to \<open>out\<close> before the final NUL. One pass
  of a writer is the \<open>for\<close> loop over \<open>aiData\<close>; \<open>fixedPass ^ ai.fnc1\<close> on booleans is
  \<open>fixedPass \<noteq> fnc1\<close>.
\<close>

definition skipped :: "bool \<Rightarrow> bool \<Rightarrow> gs1AIelement \<Rightarrow> bool" where
  "skipped fixedFirst fixedPass e = (fixedFirst \<and> \<not> (fixedPass \<noteq> fnc1 e))"

definition unbracketed_element :: "gs1DLparser \<Rightarrow> bool \<Rightarrow> gs1AIelement \<Rightarrow> char list" where
  "unbracketed_element ctx extraFNC1 e =
     prec_s (ailen e) (aiBuf ctx) (ai e) @ prec_s (vallen e) (aiBuf ctx) (val e)
     @ (if extraFNC1 \<or> fnc1 e then ''^'' else [])"

definition unbracketed_pass ::
  "gs1DLparser \<Rightarrow> bool \<Rightarrow> bool \<Rightarrow> bool \<Rightarrow> char list \<Rightarrow> char list" where
  "unbracketed_pass ctx fixedFirst extraFNC1 fixedPass out =
     fold (\<lambda>i out. if skipped fixedFirst fixedPass (aiData ctx i) then out
                    else out @ unbracketed_element ctx extraFNC1 (aiData ctx i))
       [0..<numAIs ctx] out"

definition gs1_writeUnbracketedAIelementString :: "gs1DLparser \<Rightarrow> bool \<Rightarrow> bool \<Rightarrow> char list" where
  "gs1_writeUnbracketedAIelementString ctx fixedFirst extraFNC1 =
     (let out1 = unbracketed_pass ctx fixedFirst extraFNC1 True ''^'';
          out2 = (if fixedFirst then unbracketed_pass ctx fixedFirst extraFNC1 False out1 else out1)
      in if last out2 = CHR ''^'' then butlast out2 else out2)"

text \<open>The bytes \<open>value[0]\<close> to \<open>value[vallen - 1]\<close>, each \<open>esc\<close> byte after a backslash.\<close>

definition escaped_value :: "gs1DLparser \<Rightarrow> char list \<Rightarrow> gs1AIelement \<Rightarrow> char list" where
  "escaped_value ctx esc e =
     concat (map (\<lambda>j. if peek (aiBuf ctx) (val e + j) \<in> set esc
                       then [CHR 0x5C, peek (aiBuf ctx) (val e + j)]
                       else [peek (aiBuf ctx) (val e + j)])
               [0..<vallen e])"

definition bracketed_element :: "gs1DLparser \<Rightarrow> gs1AIelement \<Rightarrow> char list" where
  "bracketed_element ctx e =
     ''('' @ prec_s (ailen e) (aiBuf ctx) (ai e) @ '')'' @ escaped_value ctx ''('' e"

definition bracketed_pass :: "gs1DLparser \<Rightarrow> bool \<Rightarrow> bool \<Rightarrow> char list \<Rightarrow> char list" where
  "bracketed_pass ctx fixedFirst fixedPass out =
     fold (\<lambda>i out. if skipped fixedFirst fixedPass (aiData ctx i) then out
                    else out @ bracketed_element ctx (aiData ctx i))
       [0..<numAIs ctx] out"

definition gs1_writeBracketedAIelementString :: "gs1DLparser \<Rightarrow> bool \<Rightarrow> char list" where
  "gs1_writeBracketedAIelementString ctx fixedFirst =
     (let out1 = bracketed_pass ctx fixedFirst True []
      in if fixedFirst then bracketed_pass ctx fixedFirst False out1 else out1)"

definition json_element :: "gs1DLparser \<Rightarrow> gs1AIelement \<Rightarrow> char list" where
  "json_element ctx e =
     [CHR 0x22] @ prec_s (ailen e) (aiBuf ctx) (ai e) @ [CHR 0x22, CHR '':'', CHR 0x22]
     @ escaped_value ctx [CHR 0x5C, CHR 0x22] e @ [CHR 0x22, CHR '','']"

definition json_pass :: "gs1DLparser \<Rightarrow> bool \<Rightarrow> bool \<Rightarrow> char list \<Rightarrow> char list" where
  "json_pass ctx fixedFirst fixedPass out =
     fold (\<lambda>i out. if skipped fixedFirst fixedPass (aiData ctx i) then out
                    else out @ json_element ctx (aiData ctx i))
       [0..<numAIs ctx] out"

text \<open>\<open>*--p = '}'\<close> overwrites the last byte written.\<close>

definition gs1_writeJSON :: "gs1DLparser \<Rightarrow> bool \<Rightarrow> char list" where
  "gs1_writeJSON ctx fixedFirst =
     (let out1 = json_pass ctx fixedFirst True ''{'';
          out2 = (if fixedFirst then json_pass ctx fixedFirst False out1 else out1)
      in butlast out2 @ ''}'')"


section \<open>Reading an element back\<close>

text \<open>
  The AI and the value of element \<open>i\<close>, as the writers read them: the AI through
  \<open>%.*s\<close>, the value byte by byte.
\<close>

definition ai_text :: "gs1DLparser \<Rightarrow> nat \<Rightarrow> char list" where
  "ai_text ctx i = prec_s (ailen (aiData ctx i)) (aiBuf ctx) (ai (aiData ctx i))"

definition value_text :: "gs1DLparser \<Rightarrow> nat \<Rightarrow> char list" where
  "value_text ctx i =
     map (\<lambda>j. peek (aiBuf ctx) (val (aiData ctx i) + j)) [0..<vallen (aiData ctx i)]"

text \<open>A context whose memory is all zero, as a static one is before its first use.\<close>

definition zeroed_context :: gs1DLparser where
  "zeroed_context =
     \<lparr>aiBuf = [NUL],
      aiData = (\<lambda>i. \<lparr>ai = 0, ailen = 0, val = 0, vallen = 0, fnc1 = False\<rparr>),
      numAIs = 0, err = []\<rparr>"

section \<open>Parsing one SSCC\<close>

text \<open>
  C9. Whatever the context held before, parsing \<open>https://a/00/006141411234567890\<close>
  returns true with one element, AI 00 and value 006141411234567890, leaves the input
  as it was, and the writers give \<open>^00006141411234567890\<close> (with and without extra
  separators), \<open>(00)006141411234567890\<close> and \<open>{"00":"006141411234567890"}\<close>, for both
  settings of \<open>fixedFirst\<close>.
\<close>

theorem parse_sscc_example:
  "(case gs1_parseDLuri \<lparr>aiBuf = b0, aiData = d0, numAIs = n0, err = e0\<rparr>
           ''https://a/00/006141411234567890'' of
      None \<Rightarrow> False
    | Some (ret, c, b) \<Rightarrow>
        ret \<and> b = ''https://a/00/006141411234567890'' \<and> numAIs c = 1 \<and> err c = []
        \<and> ai_text c 0 = ''00'' \<and> value_text c 0 = ''006141411234567890''
        \<and> gs1_writeUnbracketedAIelementString c False False = ''^00006141411234567890''
        \<and> gs1_writeUnbracketedAIelementString c True False = ''^00006141411234567890''
        \<and> gs1_writeUnbracketedAIelementString c False True = ''^00006141411234567890''
        \<and> gs1_writeUnbracketedAIelementString c True True = ''^00006141411234567890''
        \<and> gs1_writeBracketedAIelementString c False = ''(00)006141411234567890''
        \<and> gs1_writeBracketedAIelementString c True = ''(00)006141411234567890''
        \<and> gs1_writeJSON c False
            = [CHR ''{'', CHR 0x22] @ ''00'' @ [CHR 0x22, CHR '':'', CHR 0x22]
              @ ''006141411234567890'' @ [CHR 0x22, CHR ''}'']
        \<and> gs1_writeJSON c True
            = [CHR ''{'', CHR 0x22] @ ''00'' @ [CHR 0x22, CHR '':'', CHR 0x22]
              @ ''006141411234567890'' @ [CHR 0x22, CHR ''}''])"
proof (cases b0)
  case Nil
  show ?thesis unfolding Nil by code_simp
next
  case (Cons x xs)
  show ?thesis unfolding Cons by code_simp
qed

section \<open>The caller's array after a failed search\<close>

text \<open>
  C1. On \<open>https://a/99/abc\<close> the backward search walks over the pair \<open>/99/abc\<close>, whose
  AI has a valid form but is no primary key, chops the string at the first slash of the
  path info and then finds no slash left: the loop ends without restoring that slash.
  The call returns false and the caller's array holds \<open>https://a\<close>, a NUL, and
  \<open>99/abc\<close>: it is not the input.
\<close>

theorem parse_leaves_path_chopped:
  "(case gs1_parseDLuri \<lparr>aiBuf = b0, aiData = d0, numAIs = n0, err = e0\<rparr> ''https://a/99/abc'' of
      None \<Rightarrow> False
    | Some (ret, c, b) \<Rightarrow>
        \<not> ret \<and> err c = ''No GS1 DL keys found in path info''
        \<and> b = ''https://a'' @ [NUL] @ ''99/abc''
        \<and> b \<noteq> ''https://a/99/abc'')"
  by code_simp

section \<open>A path that ends in a slash\<close>

text \<open>
  C3, as the claim states it, fails on its own example: for
  \<open>https://a/stem/00/006141411234567890/\<close> the backward search takes the empty text
  after the last slash as a value and \<open>006141411234567890\<close> as its AI, which has 18
  characters, so the search stops and the call fails with the message of the search, not
  with the message of an empty value.
\<close>

theorem trailing_slash_example_fails_in_search:
  "(case gs1_parseDLuri zeroed_context ''https://a/stem/00/006141411234567890/'' of
      None \<Rightarrow> False
    | Some (ret, c, b) \<Rightarrow>
        \<not> ret \<and> err c = ''No GS1 DL keys found in path info''
        \<and> err c \<noteq> ''AI (00) value path element is empty'')"
  by code_simp


section \<open>The order of the writers\<close>










section \<open>The padding of AI (01)\<close>

lemma pad8: "map (pad_gtin14 aival 8) [0..<14] = replicate (14 - 8) CHR ''0'' @ map aival [0..<8]"
  by code_simp

lemma pad12: "map (pad_gtin14 aival 12) [0..<14] = replicate (14 - 12) CHR ''0'' @ map aival [0..<12]"
  by code_simp

lemma pad13: "map (pad_gtin14 aival 13) [0..<14] = replicate (14 - 13) CHR ''0'' @ map aival [0..<13]"
  by code_simp

text \<open>
  The padding the specification gives for a value of AI (01): zeros on the left up to 14
  characters when the length is 8, 12 or 13.
\<close>

definition gtin14_of :: "char list \<Rightarrow> char list" where
  "gtin14_of v =
     (if length v = 8 \<or> length v = 12 \<or> length v = 13
      then replicate (14 - length v) CHR ''0'' @ v else v)"

lemma cstr_0: "cstr s 0 = takeWhile (\<lambda>c. c \<noteq> NUL) s"
  by (simp add: cstr_def)

lemma cstr_drop: "cstr (drop a buf) 0 = cstr buf a"
  by (simp add: cstr_def)

lemma take_takeWhile_swap: "take n (takeWhile P xs) = takeWhile P (take n xs)"
  by (induction xs arbitrary: n) (auto simp: take_Cons split: nat.splits)

lemma cstr_no_NUL: "NUL \<notin> set (cstr buf p)"
  using set_takeWhileD [of NUL "\<lambda>c. c \<noteq> NUL" "drop p buf"] by (auto simp: cstr_def)

lemma cstr_terminated: "NUL \<notin> set xs \<Longrightarrow> cstr (xs @ NUL # ys) 0 = xs"
  by (simp add: cstr_def takeWhile_append takeWhile_eq_all_conv [THEN iffD2])

lemma strncmp_01: "strncmp_eq s ''01'' 2 = (take 2 s = ''01'')"
  by (cases s; cases "tl s") (auto simp: strncmp_eq_def)

lemma gtin_special_eq:
  assumes "vlen \<le> GS1_DL_MAX_AI_LEN"
  shows "gtin_special buf a alen aival vlen = (aival1, vlen1) \<Longrightarrow>
     map aival1 [0..<vlen1]
       = (if alen = 2 \<and> prec_s alen buf a = ''01'' then gtin14_of (map aival [0..<vlen])
          else map aival [0..<vlen])"
  using pad8 [of aival] pad12 [of aival] pad13 [of aival]
  by (auto simp: gtin_special_def strncmp_01 prec_s_def gtin14_of_def split: if_splits)

lemma gtin_special_len:
  "gtin_special buf a alen aival vlen = (aival1, vlen1) \<Longrightarrow> vlen \<le> GS1_DL_MAX_AI_LEN
     \<Longrightarrow> vlen1 \<le> GS1_DL_MAX_AI_LEN"
  by (auto simp: gtin_special_def GS1_DL_MAX_AI_LEN_def split: if_splits)

lemma strncat_array:
  assumes "n \<le> m"
  shows "strncat d (map f [0..<m]) n = strncat d (map f [0..<n]) n"
proof -
  have "take n (map f [0..<m]) = map f [0..<n]"
    using assms by (simp add: take_map min_def)
  then show ?thesis
    by (simp add: strncat_def cstr_0 take_takeWhile_swap)
qed

lemma strncat_shape:
  "\<exists>rest. strncat dest src n = (cstr dest 0 @ take n (cstr src 0)) @ NUL # rest"
  by (simp add: strncat_def)

lemma cstr_strncat: "cstr (strncat dest src n) 0 = cstr dest 0 @ take n (cstr src 0)"
proof -
  obtain rest where r: "strncat dest src n = (cstr dest 0 @ take n (cstr src 0)) @ NUL # rest"
    using strncat_shape by blast
  have "NUL \<notin> set (cstr dest 0 @ take n (cstr src 0))"
    using cstr_no_NUL [of dest 0] cstr_no_NUL [of src 0] by (auto dest: in_set_takeD)
  then show ?thesis unfolding r by (rule cstr_terminated)
qed

lemma cstr_after_strncat:
  "cstr (strncat dest src n) (strlen dest 0) = take n (cstr src 0)"
proof -
  obtain rest where r: "strncat dest src n = (cstr dest 0 @ take n (cstr src 0)) @ NUL # rest"
    using strncat_shape by blast
  have n: "NUL \<notin> set (take n (cstr src 0))"
    using cstr_no_NUL [of src 0] by (auto dest: in_set_takeD)
  have "drop (strlen dest 0) (strncat dest src n) = take n (cstr src 0) @ NUL # rest"
    unfolding r by (simp add: strlen_def)
  then have "cstr (strncat dest src n) (strlen dest 0) = cstr (take n (cstr src 0) @ NUL # rest) 0"
    by (simp add: cstr_def)
  also have "\<dots> = take n (cstr src 0)" using n by (rule cstr_terminated)
  finally show ?thesis .
qed

lemma peek_after_strncat:
  assumes "j < length (take n (cstr src 0))"
  shows "peek (strncat dest src n) (strlen dest 0 + j) = take n (cstr src 0) ! j"
proof -
  obtain rest where r: "strncat dest src n = (cstr dest 0 @ take n (cstr src 0)) @ NUL # rest"
    using strncat_shape by blast
  show ?thesis unfolding r using assms by (auto simp: peek_def strlen_def nth_append)
qed

text \<open>
  When \<open>store_element\<close> accepts an element (in either loop) whose decoded value \<open>v\<close>
  has at most \<open>GS1_DL_MAX_AI_LEN\<close> bytes, the value it hands to \<open>strncat\<close> is \<open>v\<close>
  padded on the left with zeros to 14 characters if the AI is \<open>01\<close> and \<open>v\<close> has 8, 12
  or 13 bytes, and \<open>v\<close> itself otherwise. That value gives the stored length; the string
  stored at the element's value is that value up to its first NUL byte, where \<open>strncat\<close>
  stops, so the element reads back as the value when the value holds no NUL byte.
\<close>

lemma stored_value:
  assumes acc: "store_element ctx buf a alen aival vlen = Continue aival' ctx'"
      and len: "vlen \<le> GS1_DL_MAX_AI_LEN"
  shows "let v = map aival [0..<vlen];
             w = (if alen = 2 \<and> prec_s alen buf a = ''01'' then gtin14_of v else v)
         in vallen (aiData ctx' (numAIs ctx)) = length w
            \<and> aiBuf ctx' = strncat (strncat (aiBuf ctx) (drop a buf) alen) w (length w)
            \<and> cstr (aiBuf ctx') (val (aiData ctx' (numAIs ctx))) = cstr w 0
            \<and> (NUL \<notin> set w \<longrightarrow> value_text ctx' (numAIs ctx) = w)"
proof -
  obtain aival1 vlen1 where g: "gtin_special buf a alen aival vlen = (aival1, vlen1)"
    by (cases "gtin_special buf a alen aival vlen") 
  define w where "w = map aival1 [0..<vlen1]"
  have weq: "w = (if alen = 2 \<and> prec_s alen buf a = ''01'' then gtin14_of (map aival [0..<vlen])
          else map aival [0..<vlen])"
    unfolding w_def by (rule gtin_special_eq [OF len g])
  have wl: "length w = vlen1" by (simp add: w_def)
  have v1: "vlen1 \<le> GS1_DL_MAX_AI_LEN + 1"
    using gtin_special_len [OF g len] by simp
  define b1 where "b1 = strncat (aiBuf ctx) (drop a buf) alen"
  define b2 where "b2 = strncat b1 w vlen1"
  have s: "strncat b1 (map aival1 [0..<Suc GS1_DL_MAX_AI_LEN]) vlen1 = b2"
    using strncat_array [OF v1, of b1 aival1] by (simp add: b2_def w_def del: upt_Suc)
  from acc g s have ctx': "ctx' = ctx\<lparr>aiBuf := b2,
        aiData := (aiData ctx)(numAIs ctx :=
           \<lparr>ai = strlen (aiBuf ctx) 0, ailen = alen, val = strlen b1 0, vallen = vlen1,
            fnc1 = isFNC1required b2 (strlen (aiBuf ctx) 0)\<rparr>),
        numAIs := numAIs ctx + 1\<rparr>"
    by (auto simp: store_element_def writeAIbuf_def b1_def [symmetric]
          simp del: upt_Suc split: if_splits)
  have 1: "vallen (aiData ctx' (numAIs ctx)) = length w" by (simp add: ctx' wl)
  have 2: "aiBuf ctx' = strncat (strncat (aiBuf ctx) (drop a buf) alen) w (length w)"
    by (simp add: ctx' b2_def b1_def wl)
  have tk: "take vlen1 (cstr w 0) = cstr w 0"
    using length_takeWhile_le [of "\<lambda>c. c \<noteq> NUL" w] by (simp add: cstr_0 wl [symmetric])
  have 3: "cstr (aiBuf ctx') (val (aiData ctx' (numAIs ctx))) = cstr w 0"
    using cstr_after_strncat [of b1 w vlen1] by (simp add: ctx' b2_def tk)
  have 4: "value_text ctx' (numAIs ctx) = w" if nn: "NUL \<notin> set w"
  proof -
    have cw: "cstr w 0 = w" using nn by (auto simp: cstr_0 takeWhile_eq_all_conv)
    have "peek b2 (strlen b1 0 + j) = w ! j" if "j < vlen1" for j
      using that peek_after_strncat [of j vlen1 w b1] by (simp add: b2_def cw wl)
    then have "map (\<lambda>j. peek b2 (strlen b1 0 + j)) [0..<vlen1] = map (\<lambda>j. w ! j) [0..<vlen1]"
      by simp
    also have "\<dots> = w" using map_nth [of w] by (simp add: wl)
    finally show ?thesis by (simp add: value_text_def ctx')
  qed
  from 1 2 3 4 show ?thesis by (simp add: Let_def weq [symmetric])
qed

lemma stored_value_example:
  "\<exists>a' c'. store_element
       zeroed_context
       ''01/77777777'' 0 2 (\<lambda>i. CHR ''7'') 8
       = Continue a' c'
     \<and> vallen (aiData c' 0) = 14 \<and> value_text c' 0 = ''00000077777777''"
proof -
  let ?C = "zeroed_context"
  let ?A = "\<lambda>i::nat. CHR ''7''"
  have g: "gtin_special ''01/77777777'' 0 2 ?A 8 = (pad_gtin14 ?A 8, 14)"
    by (simp add: gtin_special_def strncmp_eq_def cstr_def)
  obtain a' c' where acc: "store_element ?C ''01/77777777'' 0 2 ?A 8 = Continue a' c'"
    by (simp add: store_element_def g writeAIbuf_def strlen_def cstr_def strncat_def
          zeroed_context_def GS1_DL_MAX_AI_BUF_def GS1_DL_MAX_AI_LEN_def GS1_DL_MAX_AIS_def
          del: upt_Suc)
  have len: "(8::nat) \<le> GS1_DL_MAX_AI_LEN" by (simp add: GS1_DL_MAX_AI_LEN_def)
  have v: "map ?A [0..<8] = ''77777777''" by code_simp
  have a: "prec_s 2 ''01/77777777'' 0 = ''01''" by code_simp
  have r: "replicate 6 CHR ''0'' = ''000000''" by code_simp
  have n: "numAIs zeroed_context = 0" by (simp add: zeroed_context_def)
  from stored_value [OF acc len] v a r
  have "vallen (aiData c' 0) = 14 \<and> value_text c' 0 = ''00000077777777''"
    by (simp add: Let_def gtin14_of_def n)
  with acc show ?thesis by blast
qed

text \<open>
  C4. A value with a decoded NUL byte (\<open>%00\<close>) is not appended as the claim says. In
  \<open>https://a/01/1234%00567\<close> the decoded value of AI 01 has 8 bytes; it is padded to 14
  bytes in \<open>aival\<close> and 14 is stored as its length, but \<open>strncat\<close> stops at the NUL byte:
  the string stored for the value is \<open>0000001234\<close>. In \<open>https://a/01/A%00B/10/XYZ\<close> the
  decoded value has 3 bytes and is not padded; only \<open>A\<close> is appended, the next element is
  written right after it, and the three bytes of the first value read \<open>A10\<close>, as the
  bracketed writer prints them.
\<close>

theorem value_cut_at_decoded_NUL:
  "(case gs1_parseDLuri zeroed_context ''https://a/01/1234%00567'' of
      None \<Rightarrow> False
    | Some (ret, c, b) \<Rightarrow>
        ret \<and> numAIs c = 1 \<and> ai_text c 0 = ''01'' \<and> vallen (aiData c 0) = 14
        \<and> cstr (aiBuf c) (val (aiData c 0)) = ''0000001234''
        \<and> value_text c 0 \<noteq> ''000000'' @ ''1234'' @ [NUL] @ ''567'')
   \<and> (case gs1_parseDLuri zeroed_context ''https://a/01/A%00B/10/XYZ'' of
      None \<Rightarrow> False
    | Some (ret, c, b) \<Rightarrow>
        ret \<and> numAIs c = 2 \<and> ai_text c 0 = ''01'' \<and> vallen (aiData c 0) = 3
        \<and> value_text c 0 = ''A10'' \<and> value_text c 0 \<noteq> ''A'' @ [NUL] @ ''B''
        \<and> gs1_writeBracketedAIelementString c False = ''(01)A10(10)XYZ'')"
  by code_simp


section \<open>Percent-decoding\<close>

declare URIunescape_loop.simps [simp del]

declare path_loop.simps [simp del] query_loop.simps [simp del] scan_back.simps [simp del]

lemma size_t_less_sub2_iff:
  assumes "i < inlen" and "inlen < 2 ^ 64"
  shows "size_t_less_sub2 i inlen = (inlen < 2 \<or> i + 2 < inlen)"
proof (cases "inlen < 2")
  case True
  with assms have "i = 0" "inlen = 1" by simp_all
  then show ?thesis by (simp add: size_t_less_sub2_def word_gt_0)
next
  case False
  then have ge: "2 \<le> inlen" by simp
  have a: "unat (word_of_nat i :: 64 word) = i"
    using assms by (simp add: unat_of_nat)
  have b: "unat (word_of_nat inlen :: 64 word) = inlen"
    using assms by (simp add: unat_of_nat)
  have "(2 :: 64 word) \<le> word_of_nat inlen"
    using ge b by (simp add: word_le_nat_alt)
  then have "unat (word_of_nat inlen - 2 :: 64 word) = inlen - 2"
    using b by (simp add: unat_sub)
  with a False show ?thesis
    by (auto simp: size_t_less_sub2_def word_less_nat_alt)
qed

text \<open>
  Percent-decoding as the specification words it, on the characters of a value: a
  percent sign followed by two hexadecimal digits gives the byte they denote; in a query
  value a plus sign gives a space; every other character, also a percent sign that is not
  followed by two hexadecimal digits or that has fewer than two characters after it,
  stands for itself.
\<close>

fun percent_decode :: "bool \<Rightarrow> char list \<Rightarrow> char list" where
  "percent_decode q (c # h1 # h2 # cs) =
     (if c = CHR ''%'' \<and> isxdigit h1 \<and> isxdigit h2
      then char_of (16 * hexval h1 + hexval h2) # percent_decode q cs
      else (if q \<and> c = CHR ''+'' then CHR '' '' else c) # percent_decode q (h1 # h2 # cs))"
| "percent_decode q (c # cs) = (if q \<and> c = CHR ''+'' then CHR '' '' else c) # percent_decode q cs"
| "percent_decode q [] = []"

text \<open>The \<open>n\<close> bytes of the array from \<open>src\<close> on: the text of a value.\<close>

definition bytes_at :: "char list \<Rightarrow> nat \<Rightarrow> nat \<Rightarrow> char list" where
  "bytes_at buf src n = map (\<lambda>k. peek buf (src + k)) [0..<n]"

lemma drop_bytes_at: "drop i (bytes_at buf src n) = map (\<lambda>k. peek buf (src + k)) [i..<n]"
  by (simp add: bytes_at_def drop_map)

lemma URIunescape_loop_decodes:
  assumes "inlen < 2 ^ 64" and "inlen = 1 \<longrightarrow> \<not> isxdigit (peek buf (src + 1))" and "i \<le> inlen"
  shows "snd (URIunescape_loop buf src inlen maxlen q i j out)
           = j + length (take (maxlen - j) (percent_decode q (drop i (bytes_at buf src inlen))))
         \<and> map (fst (URIunescape_loop buf src inlen maxlen q i j out))
               [j..<snd (URIunescape_loop buf src inlen maxlen q i j out)]
           = take (maxlen - j) (percent_decode q (drop i (bytes_at buf src inlen)))
         \<and> (\<forall>k<j. fst (URIunescape_loop buf src inlen maxlen q i j out) k = out k)"
  using assms
proof (induction buf src inlen maxlen q i j out rule: URIunescape_loop.induct)
  case (1 buf src inlen maxlen q i j out)
  let ?L = "URIunescape_loop buf src inlen maxlen q"
  let ?D = "\<lambda>i. percent_decode q (drop i (bytes_at buf src inlen))"
  show ?case
  proof (cases "i < inlen \<and> j < maxlen")
    case False
    then have "?L i j out = (out(j := NUL), j)" by (subst URIunescape_loop.simps) auto
    moreover from False "1.prems"(3) have "take (maxlen - j) (?D i) = []"
      by (auto simp: drop_bytes_at)
    ultimately show ?thesis by auto
  next
    case True
    then have il: "i < inlen" and jl: "j < maxlen" by simp_all
    have sz: "size_t_less_sub2 i inlen = (inlen < 2 \<or> i + 2 < inlen)"
      using il "1.prems"(1) by (rule size_t_less_sub2_iff)
    let ?dec = "size_t_less_sub2 i inlen \<and> peek buf (src + i) = CHR ''%''
            \<and> isxdigit (peek buf (src + i + 1)) \<and> isxdigit (peek buf (src + i + 2))"
    have step: "\<exists>i' c. i' \<le> inlen \<and> ?L i j out = ?L i' (j + 1) (out(j := c))
        \<and> ?D i = c # ?D i'
        \<and> (snd (?L i' (j + 1) (out(j := c)))
           = (j + 1) + length (take (maxlen - (j + 1)) (?D i'))
         \<and> map (fst (?L i' (j + 1) (out(j := c)))) [j + 1..<snd (?L i' (j + 1) (out(j := c)))]
           = take (maxlen - (j + 1)) (?D i')
         \<and> (\<forall>k<j + 1. fst (?L i' (j + 1) (out(j := c))) k = (out(j := c)) k))"
    proof (cases ?dec)
      case dec: True
      have "inlen \<noteq> 1"
      proof
        assume "inlen = 1"
        with il have "i = 0" by simp
        with dec \<open>inlen = 1\<close> "1.prems"(2) show False by simp
      qed
      with dec sz il have i3: "i + 2 < inlen" by auto
      then have l: "[i..<inlen] = i # (i + 1) # (i + 2) # [i + 3..<inlen]"
        by (simp add: upt_conv_Cons numeral_3_eq_3)
      let ?c = "char_of (16 * hexval (peek buf (src + i + 1)) + hexval (peek buf (src + i + 2)))"
      have e: "?L i j out = ?L (i + 3) (j + 1) (out(j := ?c))"
        using True dec by (subst URIunescape_loop.simps) simp
      have d: "?D i = ?c # ?D (i + 3)"
        using dec by (simp add: drop_bytes_at l add.assoc)
      from i3 have "i + 3 \<le> inlen" by simp
      from "1.IH"(1) [OF True dec "1.prems"(1,2) this] e d \<open>i + 3 \<le> inlen\<close>
      show ?thesis by blast
    next
      case nodec: False
      let ?c = "if q \<and> peek buf (src + i) = CHR ''+'' then CHR '' '' else peek buf (src + i)"
      have e: "?L i j out = ?L (i + 1) (j + 1) (out(j := ?c))"
        using True nodec by (subst URIunescape_loop.simps) auto
      have d: "?D i = ?c # ?D (i + 1)"
      proof (cases "i + 2 < inlen")
        case True
        then have l: "[i..<inlen] = i # (i + 1) # (i + 2) # [i + 3..<inlen]"
          by (simp add: upt_conv_Cons numeral_3_eq_3)
        have l1: "[Suc i..<inlen] = Suc i # Suc (Suc i) # [i + 3..<inlen]"
          using True by (simp add: upt_conv_Cons numeral_3_eq_3)
        from nodec sz True show ?thesis
          by (auto simp: drop_bytes_at l l1 add.assoc)
      next
        case False
        with il have "inlen = i + 1 \<or> inlen = i + 2" by auto
        then show ?thesis
          by (auto simp: drop_bytes_at upt_conv_Cons)
      qed
      from il have i1: "i + 1 \<le> inlen" by simp
      have IH: "snd (?L (i + 1) (j + 1) (out(j := ?c)))
           = (j + 1) + length (take (maxlen - (j + 1)) (?D (i + 1)))
         \<and> map (fst (?L (i + 1) (j + 1) (out(j := ?c)))) [j + 1..<snd (?L (i + 1) (j + 1) (out(j := ?c)))]
           = take (maxlen - (j + 1)) (?D (i + 1))
         \<and> (\<forall>k<j + 1. fst (?L (i + 1) (j + 1) (out(j := ?c))) k = (out(j := ?c)) k)"
      proof (cases "q \<and> peek buf (src + i) = CHR ''+''")
        case True
        then have c: "?c = CHR '' ''" by simp
        show ?thesis unfolding c
          by (rule "1.IH"(2) [OF \<open>i < inlen \<and> j < maxlen\<close> nodec True "1.prems"(1,2) i1])
      next
        case False
        then have c: "?c = peek buf (src + i)" by auto
        show ?thesis unfolding c
          by (rule "1.IH"(3) [OF \<open>i < inlen \<and> j < maxlen\<close> nodec False "1.prems"(1,2) i1])
      qed
      from e d i1 IH show ?thesis by blast
    qed
    then obtain i' c where i': "i' \<le> inlen" and e: "?L i j out = ?L i' (j + 1) (out(j := c))"
      and d: "?D i = c # ?D i'"
      and s: "snd (?L i' (j + 1) (out(j := c))) = (j + 1) + length (take (maxlen - (j + 1)) (?D i'))"
      and m: "map (fst (?L i' (j + 1) (out(j := c)))) [j + 1..<snd (?L i' (j + 1) (out(j := c)))]
           = take (maxlen - (j + 1)) (?D i')"
      and k: "\<forall>k<j + 1. fst (?L i' (j + 1) (out(j := c))) k = (out(j := c)) k"
      by blast
    from jl have t: "take (maxlen - j) (c # ?D i') = c # take (maxlen - (j + 1)) (?D i')"
    proof -
      from jl have "maxlen - j = Suc (maxlen - (j + 1))" by simp
      then show ?thesis by (simp only: take_Suc_Cons)
    qed
    from k have kj: "fst (?L i' (j + 1) (out(j := c))) j = c" by simp
    have lt: "j < snd (?L i' (j + 1) (out(j := c)))" using s by simp
    have "map (fst (?L i' (j + 1) (out(j := c)))) [j..<snd (?L i' (j + 1) (out(j := c)))]
           = c # take (maxlen - (j + 1)) (?D i')"
      using lt kj m by (simp add: upt_conv_Cons)
    with s k t show ?thesis
      by (simp only: e d) auto
  qed
qed

lemma find_first_nth: "find_first c s = Some k \<Longrightarrow> s ! k = c"
  by (induction s arbitrary: k) (auto split: if_splits)

lemma cstr_nth: "k < length (cstr buf p) \<Longrightarrow> cstr buf p ! k = peek buf (p + k)"
proof -
  assume k: "k < length (cstr buf p)"
  have "length (cstr buf p) \<le> length buf - p"
    using length_takeWhile_le [of "\<lambda>c. c \<noteq> NUL" "drop p buf"] by (simp add: cstr_def)
  with k have "p + k < length buf" by simp
  moreover from k have "cstr buf p ! k = drop p buf ! k"
    unfolding cstr_def by (rule takeWhile_nth)
  ultimately show ?thesis by (simp add: peek_def)
qed

lemma strchr_peek:
  assumes "strchr buf p c = Some q"
  shows "peek buf q = c"
proof -
  from assms obtain k where k: "find_first c (cstr buf p) = Some k" and q: "q = p + k"
    by (auto simp: strchr_def)
  from cstr_nth [OF find_first_less [OF k]] find_first_nth [OF k] q show ?thesis by simp
qed

lemma peek_strlen: "peek buf (p + strlen buf p) = NUL"
proof (cases "p + strlen buf p < length buf")
  case False
  then show ?thesis by (simp add: peek_def)
next
  case True
  then have "length (takeWhile (\<lambda>c. c \<noteq> NUL) (drop p buf)) < length (drop p buf)"
    by (simp add: strlen_def cstr_def)
  from nth_length_takeWhile [OF this] True show ?thesis
    by (simp add: peek_def strlen_def cstr_def)
qed

lemma value_end_delimiter:
  "peek buf (value_end buf r) = CHR ''/'' \<or> peek buf (value_end buf r) = NUL"
  by (auto simp: value_end_def peek_strlen dest: strchr_peek split: option.splits)

lemma param_end_delimiter:
  "peek buf (param_end buf p) = CHR ''&'' \<or> peek buf (param_end buf p) = NUL"
  by (auto simp: param_end_def peek_strlen dest: strchr_peek split: option.splits)

lemma delimiters_not_xdigit:
  "\<not> isxdigit CHR ''/''" "\<not> isxdigit CHR ''&''" "\<not> isxdigit NUL"
  by (simp_all add: isxdigit_def)

lemma value_end_le: "value_end buf r \<le> max r (length buf)"
  using strlen_le [of r buf]
  by (auto simp: value_end_def dest: strchr_range(3) split: option.splits)

lemma param_end_le: "param_end buf p \<le> max p (length buf)"
  using strlen_le [of p buf]
  by (auto simp: param_end_def dest: strchr_range(3) split: option.splits)

lemma URIunescape_decodes:
  assumes "inlen < 2 ^ 64" and "inlen = 1 \<longrightarrow> \<not> isxdigit (peek buf (src + 1))"
  shows "map (fst (URIunescape out maxlen buf src inlen q))
             [0..<snd (URIunescape out maxlen buf src inlen q)]
           = take maxlen (percent_decode q (bytes_at buf src inlen))"
  using URIunescape_loop_decodes [OF assms, of 0 maxlen q 0 out, THEN conjunct2, THEN conjunct1]
  unfolding URIunescape_def by (simp only: diff_zero drop_0 le0 simp_thms)

text \<open>
  C6. For the value of a path pair (from \<open>r\<close> to the next slash or the end of the
  string, decoded with \<open>is_query_component\<close> false) and for the value of a query
  parameter (from \<open>e\<close> inside the parameter that starts at \<open>p\<close>, to the next \<open>&\<close> or
  the end of the string, decoded with the flag true), the bytes \<open>URIunescape\<close> writes
  are the first \<open>GS1_DL_MAX_AI_LEN\<close> bytes of the percent-decoding of the value's text.
  The array holds fewer than \<open>2^64\<close> bytes, the range of \<open>size_t\<close>.
\<close>

theorem percent_decoding:
  assumes "length buf < 2 ^ 64" and "p \<le> e"
  shows "map (fst (URIunescape aival GS1_DL_MAX_AI_LEN buf r (value_end buf r - r) False))
             [0..<snd (URIunescape aival GS1_DL_MAX_AI_LEN buf r (value_end buf r - r) False)]
           = take GS1_DL_MAX_AI_LEN (percent_decode False (bytes_at buf r (value_end buf r - r)))
         \<and> map (fst (URIunescape aival GS1_DL_MAX_AI_LEN buf e (param_end buf p - e) True))
             [0..<snd (URIunescape aival GS1_DL_MAX_AI_LEN buf e (param_end buf p - e) True)]
           = take GS1_DL_MAX_AI_LEN (percent_decode True (bytes_at buf e (param_end buf p - e)))"
proof
  have "value_end buf r - r \<le> length buf" using value_end_le [of buf r] by auto
  with assms(1) have l: "value_end buf r - r < 2 ^ 64" by simp
  have d: "value_end buf r - r = 1 \<longrightarrow> \<not> isxdigit (peek buf (r + 1))"
  proof
    assume "value_end buf r - r = 1"
    then have "r + 1 = value_end buf r" by simp
    with value_end_delimiter [of buf r] show "\<not> isxdigit (peek buf (r + 1))"
      by (auto simp: delimiters_not_xdigit)
  qed
  show "map (fst (URIunescape aival GS1_DL_MAX_AI_LEN buf r (value_end buf r - r) False))
             [0..<snd (URIunescape aival GS1_DL_MAX_AI_LEN buf r (value_end buf r - r) False)]
           = take GS1_DL_MAX_AI_LEN (percent_decode False (bytes_at buf r (value_end buf r - r)))"
    by (rule URIunescape_decodes [OF l d])
next
  have "param_end buf p - e \<le> length buf" using param_end_le [of buf p] assms(2) by auto
  with assms(1) have l: "param_end buf p - e < 2 ^ 64" by simp
  have d: "param_end buf p - e = 1 \<longrightarrow> \<not> isxdigit (peek buf (e + 1))"
  proof
    assume "param_end buf p - e = 1"
    then have "e + 1 = param_end buf p" by simp
    with param_end_delimiter [of buf p] show "\<not> isxdigit (peek buf (e + 1))"
      by (auto simp: delimiters_not_xdigit)
  qed
  show "map (fst (URIunescape aival GS1_DL_MAX_AI_LEN buf e (param_end buf p - e) True))
             [0..<snd (URIunescape aival GS1_DL_MAX_AI_LEN buf e (param_end buf p - e) True)]
           = take GS1_DL_MAX_AI_LEN (percent_decode True (bytes_at buf e (param_end buf p - e)))"
    by (rule URIunescape_decodes [OF l d])
qed

theorem percent_decoding_witness:
  "map (fst (URIunescape aival_start GS1_DL_MAX_AI_LEN ''/10/A%4fB+%2%zz/21/x'' 4
               (value_end ''/10/A%4fB+%2%zz/21/x'' 4 - 4) False))
     [0..<snd (URIunescape aival_start GS1_DL_MAX_AI_LEN ''/10/A%4fB+%2%zz/21/x'' 4
               (value_end ''/10/A%4fB+%2%zz/21/x'' 4 - 4) False)]
     = ''AOB+%2%zz''
   \<and> map (fst (URIunescape aival_start GS1_DL_MAX_AI_LEN ''10=A%4fB+%2&21=x'' 3
               (param_end ''10=A%4fB+%2&21=x'' 0 - 3) True))
     [0..<snd (URIunescape aival_start GS1_DL_MAX_AI_LEN ''10=A%4fB+%2&21=x'' 3
               (param_end ''10=A%4fB+%2&21=x'' 0 - 3) True)]
     = ''AOB %2''"
proof -
  have a: "take GS1_DL_MAX_AI_LEN (percent_decode False
             (bytes_at ''/10/A%4fB+%2%zz/21/x'' 4 (value_end ''/10/A%4fB+%2%zz/21/x'' 4 - 4)))
           = ''AOB+%2%zz''"
    by code_simp
  have b: "take GS1_DL_MAX_AI_LEN (percent_decode True
             (bytes_at ''10=A%4fB+%2&21=x'' 3 (param_end ''10=A%4fB+%2&21=x'' 0 - 3)))
           = ''AOB %2''"
    by code_simp
  have l1: "length ''/10/A%4fB+%2%zz/21/x'' < 2 ^ 64" by simp
  have l2: "length ''10=A%4fB+%2&21=x'' < 2 ^ 64" by simp
  have pe: "(0::nat) \<le> 3" by simp
  from percent_decoding [OF l1 pe, of aival_start 4] percent_decoding [OF l2 pe, of aival_start 0] a b
  show ?thesis by simp
qed

section \<open>The error field\<close>

lemma URIunescape_loop_step:
  assumes "i < inlen" and "j < maxlen"
  shows "\<exists>i' c. i < i' \<and> URIunescape_loop buf src inlen maxlen q i j out
            = URIunescape_loop buf src inlen maxlen q i' (Suc j) (out(j := c))"
proof (cases "size_t_less_sub2 i inlen \<and> peek buf (src + i) = CHR ''%''
            \<and> isxdigit (peek buf (src + i + 1)) \<and> isxdigit (peek buf (src + i + 2))")
  case True
  with assms have "URIunescape_loop buf src inlen maxlen q i j out
      = URIunescape_loop buf src inlen maxlen q (i + 3) (Suc j)
          (out(j := char_of (16 * hexval (peek buf (src + i + 1))
                              + hexval (peek buf (src + i + 2)))))"
    by (subst URIunescape_loop.simps) simp
  moreover have "i < i + 3" by simp
  ultimately show ?thesis by blast
next
  case False
  with assms have "URIunescape_loop buf src inlen maxlen q i j out
      = URIunescape_loop buf src inlen maxlen q (i + 1) (Suc j)
          (out(j := (if q \<and> peek buf (src + i) = CHR ''+'' then CHR '' ''
                     else peek buf (src + i))))"
    by (subst URIunescape_loop.simps) auto
  moreover have "i < i + 1" by simp
  ultimately show ?thesis by blast
qed

lemma URIunescape_loop_stop:
  assumes "\<not> (i < inlen \<and> j < maxlen)"
  shows "URIunescape_loop buf src inlen maxlen q i j out = (out(j := NUL), j)"
  using assms by (subst URIunescape_loop.simps) auto

lemma URIunescape_loop_range:
  "j \<le> snd (URIunescape_loop buf src inlen maxlen q i j out)
   \<and> (j \<le> maxlen \<longrightarrow> snd (URIunescape_loop buf src inlen maxlen q i j out) \<le> maxlen)"
proof (induction "inlen - i" arbitrary: i j out rule: less_induct)
  case less
  show ?case
  proof (cases "i < inlen \<and> j < maxlen")
    case True
    then obtain i' c where i': "i < i'"
      and e: "URIunescape_loop buf src inlen maxlen q i j out
            = URIunescape_loop buf src inlen maxlen q i' (Suc j) (out(j := c))"
      using URIunescape_loop_step [of i inlen j maxlen buf src q out] by blast
    from True i' have "inlen - i' < inlen - i" by arith
    from less [OF this, of "Suc j" "out(j := c)"] True show ?thesis
      by (simp only: e) auto
  next
    case False
    from URIunescape_loop_stop [OF False, of buf src q out] show ?thesis by simp
  qed
qed

lemma URIunescape_pos:
  assumes "0 < inlen" and "0 < maxlen"
  shows "0 < snd (URIunescape out maxlen buf src inlen q)"
proof -
  from URIunescape_loop_step [OF assms, of buf src q out]
  obtain i c where "URIunescape out maxlen buf src inlen q
           = URIunescape_loop buf src inlen maxlen q i (Suc 0) (out(0 := c))"
    unfolding URIunescape_def by blast
  with URIunescape_loop_range [of "Suc 0" buf src inlen maxlen q i "out(0 := c)"]
  show ?thesis by simp
qed

lemma URIunescape_le: "snd (URIunescape out maxlen buf src inlen q) \<le> maxlen"
  unfolding URIunescape_def using URIunescape_loop_range [of 0 buf src inlen maxlen q 0 out] by simp

text \<open>
  The two messages "Decoded AI (...) from DL path info too long" and "Decoded AI (...) value
  from DL query params too long" are the only ones that start with "Decoded AI".
\<close>

definition too_long_error :: "char list \<Rightarrow> bool" where
  "too_long_error m = (take 10 m = ''Decoded AI'')"

lemma store_element_err:
  "err ctx = [] \<Longrightarrow>
   (case store_element ctx buf a alen aival vlen of
      Continue a' c \<Rightarrow> err c = []
    | GotoFail c \<Rightarrow> err c = [] \<or> err c = ''Too many AIs''
    | Crash \<Rightarrow> False)"
  by (auto simp: store_element_def writeAIbuf_def split: prod.splits option.splits)

lemma path_loop_err:
  "err ctx = [] \<Longrightarrow>
   (case path_loop buf p aival ctx of
      Continue a c \<Rightarrow> err c = []
    | GotoFail c \<Rightarrow> \<not> too_long_error (err c)
    | Crash \<Rightarrow> True)"
proof (induction buf p aival ctx rule: path_loop.induct)
  case (1 buf p aival ctx)
  show ?case
  proof (cases "peek buf p = NUL")
    case True
    with 1(2) show ?thesis by (subst path_loop.simps) simp
  next
    case nz: False
    show ?thesis
    proof (cases "strchr buf (p + 1) CHR ''/''")
      case None
      with nz show ?thesis by (subst path_loop.simps) simp
    next
      case (Some r)
      show ?thesis
      proof (cases "value_end buf (r + 1) = r + 1")
        case True
        with nz Some show ?thesis
          by (subst path_loop.simps) (simp add: too_long_error_def)
      next
        case ne: False
        obtain aival1 vlen where u: "URIunescape aival GS1_DL_MAX_AI_LEN buf (r + 1)
                        (value_end buf (r + 1) - (r + 1)) False = (aival1, vlen)"
          by (cases "URIunescape aival GS1_DL_MAX_AI_LEN buf (r + 1)
                        (value_end buf (r + 1) - (r + 1)) False")
        from ne value_end_ge [of "r + 1" buf] have "0 < value_end buf (r + 1) - (r + 1)" by simp
        from URIunescape_pos [OF this, of GS1_DL_MAX_AI_LEN aival buf "r + 1" False] u
        have vpos: "vlen \<noteq> 0" by (simp add: GS1_DL_MAX_AI_LEN_def)
        show ?thesis
        proof (cases "store_element ctx buf (p + 1) (r - (p + 1)) aival1 vlen")
          case (Continue aival2 ctx2)
          with store_element_err [OF 1(2), of buf "p + 1" "r - (p + 1)" aival1 vlen]
          have e2: "err ctx2 = []" by simp
          from "1.IH" [OF nz Some ne u [symmetric] vpos Continue e2]
          show ?thesis
            using nz Some ne u vpos Continue by (subst path_loop.simps) simp
        next
          case (GotoFail c)
          with store_element_err [OF 1(2), of buf "p + 1" "r - (p + 1)" aival1 vlen]
          have "\<not> too_long_error (err c)" by (auto simp: too_long_error_def)
          then show ?thesis
            using nz Some ne u vpos GotoFail by (subst path_loop.simps) simp
        next
          case Crash
          then show ?thesis
            using nz Some ne u vpos by (subst path_loop.simps) simp
        qed
      qed
    qed
  qed
qed

lemma query_loop_err:
  "err ctx = [] \<Longrightarrow>
   (case query_loop buf p aival ctx of
      Continue a c \<Rightarrow> err c = []
    | GotoFail c \<Rightarrow> \<not> too_long_error (err c)
    | Crash \<Rightarrow> True)"
proof (induction buf p aival ctx rule: query_loop.induct)
  case (1 buf p aival ctx)
  let ?s = "skip_amp buf p"
  let ?r = "param_end buf ?s"
  show ?case
  proof (cases "peek buf p = NUL")
    case True
    with 1(4) show ?thesis by (subst query_loop.simps) simp
  next
    case nz: False
    show ?thesis
    proof (cases "memchr buf ?s CHR ''='' (?r - ?s)")
      case None
      from "1.IH"(1) [OF nz None 1(4)] nz None show ?thesis
        by (subst query_loop.simps) simp
    next
      case (Some e)
      show ?thesis
      proof (cases "allDigits buf ?s (e - ?s)")
        case nd: False
        from "1.IH"(3) [OF nz Some nd 1(4)] nz Some nd show ?thesis
          by (subst query_loop.simps) simp
      next
        case dg: True
        show ?thesis
        proof (cases "e - ?s < 2 \<or> e - ?s > 4")
          case True
          with nz Some dg show ?thesis
            by (subst query_loop.simps) (simp add: too_long_error_def)
        next
          case ok: False
          show ?thesis
          proof (cases "?r = e + 1")
            case True
            with nz Some dg ok show ?thesis
              by (subst query_loop.simps) (simp add: too_long_error_def)
          next
            case ne: False
            obtain aival1 vlen where u: "URIunescape aival GS1_DL_MAX_AI_LEN buf (e + 1)
                           (?r - (e + 1)) True = (aival1, vlen)"
              by (cases "URIunescape aival GS1_DL_MAX_AI_LEN buf (e + 1) (?r - (e + 1)) True")
            from Some have "e < ?s + (?r - ?s)"
              by (auto simp: memchr_def dest: find_first_less)
            with ne param_end_ge [of ?s buf] have "0 < ?r - (e + 1)" by arith
            from URIunescape_pos [OF this, of GS1_DL_MAX_AI_LEN aival buf "e + 1" True] u
            have vpos: "vlen \<noteq> 0" by (simp add: GS1_DL_MAX_AI_LEN_def)
            show ?thesis
            proof (cases "store_element ctx buf ?s (e - ?s) aival1 vlen")
              case (Continue aival2 ctx2)
              with store_element_err [OF 1(4), of buf ?s "e - ?s" aival1 vlen]
              have e2: "err ctx2 = []" by simp
              from "1.IH"(2) [OF nz Some dg ok ne u [symmetric] vpos Continue e2]
              show ?thesis
                using nz Some dg ok ne u vpos Continue by (subst query_loop.simps) simp
            next
              case (GotoFail c)
              with store_element_err [OF 1(4), of buf ?s "e - ?s" aival1 vlen]
              have "\<not> too_long_error (err c)" by (auto simp: too_long_error_def)
              then show ?thesis
                using nz Some dg ok ne u vpos GotoFail by (subst query_loop.simps) simp
            next
              case Crash
              then show ?thesis
                using nz Some dg ok ne u vpos by (subst query_loop.simps) simp
            qed
          qed
        qed
      qed
    qed
  qed
qed

lemma split_uri_messages:
  "split_uri dlData = Inl m \<Longrightarrow> m \<noteq> [] \<and> \<not> too_long_error m"
  by (auto simp: split_uri_def too_long_error_def split: if_splits option.splits)

lemma parse_fail_result:
  "parse_fail ctx buf qp fr = (ret, c, b) \<Longrightarrow>
     \<not> ret \<and> numAIs c = 0 \<and> err c \<noteq> []
     \<and> (err ctx \<noteq> [] \<longrightarrow> err c = err ctx)
     \<and> (err ctx = [] \<longrightarrow> err c = ''Failed to parse DL data'')"
  by (auto simp: parse_fail_def parse_out_def split: if_splits)

lemma parse_out_result:
  "parse_out r ctx buf qp fr = (ret, c, b) \<Longrightarrow> ret = r \<and> c = ctx"
  by (auto simp: parse_out_def)

text \<open>
  The flag and the error field of a call that returns: false comes with no element and
  a message, true with no message.
\<close>

lemma error_field_when_returned:
  assumes "gs1_parseDLuri ctx dlData = Some (ret, c, b)"
  shows "if ret then err c = [] else numAIs c = 0 \<and> err c \<noteq> []"
proof (cases "split_uri dlData")
  case (Inl m)
  with assms show ?thesis
    by (auto simp: gs1_parseDLuri_def dest!: parse_fail_result)
next
  case (Inr t)
  obtain pinfo buf qp fr where t: "t = (pinfo, buf, qp, fr)" by (cases t)
  obtain buf1 dp where sb: "scan_back buf pinfo pinfo = (buf1, dp)"
    by (cases "scan_back buf pinfo pinfo")
  let ?c0 = "ctx\<lparr>numAIs := 0, aiBuf := (aiBuf ctx)[0 := NUL], err := []\<rparr>"
  have e0: "err ?c0 = []" by simp
  show ?thesis
  proof (cases dp)
    case None
    with assms Inr t sb show ?thesis
      by (auto simp: gs1_parseDLuri_def dest!: parse_fail_result)
  next
    case (Some d)
    note pl = path_loop_err [OF e0, of buf1 d aival_start]
    show ?thesis
    proof (cases "path_loop buf1 d aival_start ?c0")
      case Crash
      with assms Inr t sb Some show ?thesis by (simp add: gs1_parseDLuri_def)
    next
      case (GotoFail c1)
      with assms Inr t sb Some show ?thesis
        by (auto simp: gs1_parseDLuri_def dest!: parse_fail_result)
    next
      case (Continue aival1 ctx1)
      with pl have e1: "err ctx1 = []" by simp
      show ?thesis
      proof (cases qp)
        case None
        with assms Inr t sb Some Continue e1 show ?thesis
          by (auto simp: gs1_parseDLuri_def dest!: parse_out_result)
      next
        case (Some q)
        note ql = query_loop_err [OF e1, of buf1 q aival1]
        show ?thesis
        proof (cases "query_loop buf1 q aival1 ctx1")
          case Crash
          with assms Inr t sb \<open>dp = Some d\<close> Continue Some show ?thesis
            by (simp add: gs1_parseDLuri_def)
        next
          case (GotoFail c2)
          with assms Inr t sb \<open>dp = Some d\<close> Continue Some show ?thesis
            by (auto simp: gs1_parseDLuri_def dest!: parse_fail_result)
        next
          case c2: (Continue aival2 ctx2)
          with ql have "err ctx2 = []" by simp
          with assms Inr t sb \<open>dp = Some d\<close> Continue Some c2 show ?thesis
            by (auto simp: gs1_parseDLuri_def dest!: parse_out_result)
        qed
      qed
    qed
  qed
qed

text \<open>
  Neither "Decoded AI ... too long" message is ever left in \<open>err\<close>: \<open>URIunescape\<close>
  with capacity \<open>GS1_DL_MAX_AI_LEN\<close> returns at least 1 on a value that is not empty, and
  both loops reject an empty value before they decode. It returns at most the capacity:
  the length of the decoded value or the capacity, whichever is smaller.
\<close>

lemma too_long_never_set:
  "(gs1_parseDLuri ctx dlData = Some (ret, c, b) \<longrightarrow> \<not> too_long_error (err c))
   \<and> too_long_error (''Decoded AI ('' @ t @ '') from DL path info too long'')
   \<and> too_long_error (''Decoded AI ('' @ t @ '') value from DL query params too long'')
   \<and> (0 < inlen \<longrightarrow> 0 < snd (URIunescape out GS1_DL_MAX_AI_LEN buf src inlen q))
   \<and> snd (URIunescape out GS1_DL_MAX_AI_LEN buf src inlen q) \<le> GS1_DL_MAX_AI_LEN
   \<and> (inlen < 2 ^ 64 \<and> (inlen = 1 \<longrightarrow> \<not> isxdigit (peek buf (src + 1))) \<longrightarrow>
        snd (URIunescape out GS1_DL_MAX_AI_LEN buf src inlen q)
          = min GS1_DL_MAX_AI_LEN (length (percent_decode q (bytes_at buf src inlen))))"
proof -
  have 1: "\<not> too_long_error (err c)" if p: "gs1_parseDLuri ctx dlData = Some (ret, c, b)"
  proof (cases "split_uri dlData")
    case (Inl m)
    with p split_uri_messages [OF Inl] show ?thesis
      by (auto simp: gs1_parseDLuri_def dest!: parse_fail_result)
  next
    case (Inr t)
    obtain pinfo buf qp fr where t: "t = (pinfo, buf, qp, fr)" by (cases t)
    obtain buf1 dp where sb: "scan_back buf pinfo pinfo = (buf1, dp)"
      by (cases "scan_back buf pinfo pinfo")
    let ?c0 = "ctx\<lparr>numAIs := 0, aiBuf := (aiBuf ctx)[0 := NUL], err := []\<rparr>"
    have e0: "err ?c0 = []" by simp
    have dflt: "\<not> too_long_error ''Failed to parse DL data''"
      by (simp add: too_long_error_def)
    have pf: "\<not> too_long_error (err c)"
      if "parse_fail c1 buf1 qp fr = (ret, c, b)" and "\<not> too_long_error (err c1)" for c1
      using parse_fail_result [OF that(1)] that(2) dflt by (cases "err c1 = []") auto
    show ?thesis
    proof (cases dp)
      case None
      with p Inr t sb show ?thesis
        by (auto simp: gs1_parseDLuri_def too_long_error_def dest!: parse_fail_result)
    next
      case (Some d)
      note pl = path_loop_err [OF e0, of buf1 d aival_start]
      show ?thesis
      proof (cases "path_loop buf1 d aival_start ?c0")
        case Crash
        with p Inr t sb Some show ?thesis by (simp add: gs1_parseDLuri_def)
      next
        case (GotoFail c1)
        with pl have "\<not> too_long_error (err c1)" by simp
        moreover from p Inr t sb Some GotoFail have "parse_fail c1 buf1 qp fr = (ret, c, b)"
          by (simp add: gs1_parseDLuri_def)
        ultimately show ?thesis using pf by blast
      next
        case (Continue aival1 ctx1)
        with pl have e1: "err ctx1 = []" by simp
        have nt: "\<not> too_long_error []" by (simp add: too_long_error_def)
        show ?thesis
        proof (cases qp)
          case None
          with p Inr t sb Some Continue e1 nt show ?thesis
            by (auto simp: gs1_parseDLuri_def dest!: parse_out_result)
        next
          case (Some q)
          note ql = query_loop_err [OF e1, of buf1 q aival1]
          show ?thesis
          proof (cases "query_loop buf1 q aival1 ctx1")
            case Crash
            with p Inr t sb \<open>dp = Some d\<close> Continue Some show ?thesis
              by (simp add: gs1_parseDLuri_def)
          next
            case (GotoFail c2)
            with ql have "\<not> too_long_error (err c2)" by simp
            moreover from p Inr t sb \<open>dp = Some d\<close> Continue Some GotoFail
            have "parse_fail c2 buf1 qp fr = (ret, c, b)"
              by (simp add: gs1_parseDLuri_def)
            ultimately show ?thesis using pf by blast
          next
            case c2: (Continue aival2 ctx2)
            with ql have "err ctx2 = []" by simp
            with p Inr t sb \<open>dp = Some d\<close> Continue Some c2 nt show ?thesis
              by (auto simp: gs1_parseDLuri_def dest!: parse_out_result)
          qed
        qed
      qed
    qed
  qed
  have 2: "too_long_error (''Decoded AI ('' @ t @ '') from DL path info too long'')"
    by (simp add: too_long_error_def)
  have 3: "too_long_error (''Decoded AI ('' @ t @ '') value from DL query params too long'')"
    by (simp add: too_long_error_def)
  have 4: "0 < snd (URIunescape out GS1_DL_MAX_AI_LEN buf src inlen q)" if "0 < inlen"
    using URIunescape_pos [OF that, of GS1_DL_MAX_AI_LEN out buf src q]
    by (simp add: GS1_DL_MAX_AI_LEN_def)
  have 5: "snd (URIunescape out GS1_DL_MAX_AI_LEN buf src inlen q) \<le> GS1_DL_MAX_AI_LEN"
    by (rule URIunescape_le)
  have 6: "snd (URIunescape out GS1_DL_MAX_AI_LEN buf src inlen q)
          = min GS1_DL_MAX_AI_LEN (length (percent_decode q (bytes_at buf src inlen)))"
    if "inlen < 2 ^ 64" and "inlen = 1 \<longrightarrow> \<not> isxdigit (peek buf (src + 1))"
    using URIunescape_loop_decodes [OF that, of 0 GS1_DL_MAX_AI_LEN q 0 out, THEN conjunct1]
    by (simp add: URIunescape_def min.commute)
  from 1 2 3 4 5 6 show ?thesis by blast
qed


section \<open>The search on a path given by its parts\<close>

lemma find_first_None_iff: "find_first c s = None \<longleftrightarrow> c \<notin> set s"
  by (induction s) auto

lemma find_last_None_iff: "find_last c s = None \<longleftrightarrow> c \<notin> set s"
  by (induction s) (auto split: option.splits)

lemma find_first_here: "c \<notin> set xs \<Longrightarrow> find_first c (xs @ c # ys) = Some (length xs)"
  by (induction xs) auto

lemma find_last_here: "c \<notin> set ys \<Longrightarrow> find_last c (xs @ c # ys) = Some (length xs)"
  by (induction xs) (auto simp: find_last_None_iff [THEN iffD2])

lemma cstr_in_buffer:
  assumes "NUL \<notin> set s" and "rest = [] \<or> hd rest = NUL"
  shows "cstr (pre @ s @ rest) (length pre) = s"
proof -
  from assms(2) have "takeWhile (\<lambda>c. c \<noteq> NUL) rest = []" by (cases rest) auto
  with assms(1) show ?thesis
    by (simp add: cstr_def takeWhile_append takeWhile_eq_all_conv [THEN iffD2])
qed

lemma strchr_in_buffer:
  assumes "NUL \<notin> set (xs @ c # ys)" and "rest = [] \<or> hd rest = NUL" and "c \<notin> set xs"
  shows "strchr (pre @ xs @ c # ys @ rest) (length pre) c = Some (length pre + length xs)"
  using cstr_in_buffer [OF assms(1,2), of pre] assms(3)
  by (simp add: strchr_def find_first_here)

lemma strchr_none_in_buffer:
  assumes "NUL \<notin> set s" and "rest = [] \<or> hd rest = NUL" and "c \<notin> set s"
  shows "strchr (pre @ s @ rest) (length pre) c = None"
  using cstr_in_buffer [OF assms(1,2), of pre] assms(3)
  by (simp add: strchr_def find_first_None_iff)

lemma strrchr_in_buffer:
  assumes "NUL \<notin> set (xs @ c # ys)" and "rest = [] \<or> hd rest = NUL" and "c \<notin> set ys"
  shows "strrchr (pre @ xs @ c # ys @ rest) (length pre) c = Some (length pre + length xs)"
  using cstr_in_buffer [OF assms(1,2), of pre] assms(3)
  by (simp add: strrchr_def find_last_here)

lemma strrchr_none_in_buffer:
  assumes "NUL \<notin> set s" and "rest = [] \<or> hd rest = NUL" and "c \<notin> set s"
  shows "strrchr (pre @ s @ rest) (length pre) c = None"
  using cstr_in_buffer [OF assms(1,2), of pre] assms(3)
  by (simp add: strrchr_def find_last_None_iff)

lemma update_in_buffer: "(pre @ xs @ c # ys)[length pre + length xs := d] = pre @ xs @ d # ys"
  by (simp add: list_update_append)

lemma peek_in_buffer: "peek (pre @ xs @ c # ys) (length pre + length xs) = c"
  by (simp add: peek_def nth_append)

text \<open>The form the backward search accepts for an AI: 2 to 4 characters, all digits.\<close>

definition valid_ai_form :: "char list \<Rightarrow> bool" where
  "valid_ai_form seg = (2 \<le> length seg \<and> length seg \<le> 4 \<and> list_all isdigit seg)"

lemma allDigits_in_buffer:
  "allDigits (pre @ seg @ ys) (length pre) (length seg) = list_all isdigit seg"
  by (auto simp: allDigits_def list_all_length peek_def nth_append)

lemma strncmp_eq_prefix:
  assumes "length k = length seg"
  shows "strncmp_eq (seg @ ys) k (length seg) = (seg = k)"
  using assms by (auto simp: strncmp_eq_def)

lemma list_ex_pkey:
  "list_ex (\<lambda>k. length k = length seg \<and> strncmp_eq (seg @ ys) k (length seg)) ks
     = (seg \<in> set ks)"
proof (induction ks)
  case Nil
  show ?case by simp
next
  case (Cons k ks)
  have "(length k = length seg \<and> strncmp_eq (seg @ ys) k (length seg)) = (seg = k)"
    using strncmp_eq_prefix [of k seg ys] by auto
  with Cons show ?case by auto
qed

lemma isDLpkey_in_buffer:
  assumes "NUL \<notin> set (seg @ ys)" and "rest = [] \<or> hd rest = NUL"
  shows "isDLpkey (pre @ seg @ ys @ rest) (length pre) (length seg) = (seg \<in> set dl_pkeys)"
proof -
  have "cstr (pre @ (seg @ ys) @ rest) (length pre) = seg @ ys"
    by (rule cstr_in_buffer [OF assms])
  then have c: "cstr (pre @ seg @ ys @ rest) (length pre) = seg @ ys" by simp
  show ?thesis unfolding isDLpkey_def c by (rule list_ex_pkey)
qed

lemma scan_back_first:
  assumes nn: "NUL \<notin> set (stem @ seg @ v)" and rest: "rest = [] \<or> hd rest = NUL"
    and sl: "CHR ''/'' \<notin> set seg" "CHR ''/'' \<notin> set v"
    and st: "stem = [] \<or> hd stem = CHR ''/''"
    and buf: "buf = pre @ stem @ CHR ''/'' # seg @ CHR ''/'' # v @ rest"
  shows "scan_back buf (length pre) (length pre) =
     (if \<not> valid_ai_form seg then (buf, None)
      else if seg \<in> set dl_pkeys then (buf, Some (length pre + length stem))
      else scan_back (buf[length pre + length stem := NUL]) (length pre)
             (length pre + length stem))"
proof -
  define xs where "xs = stem @ CHR ''/'' # seg"
  define r where "r = length pre + length xs"
  define q where "q = length pre + length stem"
  have b1: "buf = pre @ xs @ CHR ''/'' # v @ rest" by (simp add: buf xs_def)
  have nx: "NUL \<notin> set (xs @ CHR ''/'' # v)" using nn by (simp add: xs_def)
  have r: "strrchr buf (length pre) CHR ''/'' = Some r"
    unfolding b1 r_def by (rule strrchr_in_buffer [OF nx rest sl(2)])
  have id: "buf[length pre := CHR ''/''] = buf"
  proof -
    have "buf ! length pre = CHR ''/''"
      using st by (cases stem) (auto simp: buf nth_append)
    then show ?thesis by (metis list_update_id)
  qed
  have chop: "buf[r := NUL] = pre @ xs @ NUL # v @ rest"
    unfolding b1 r_def by (rule update_in_buffer)
  have chop2: "buf[r := NUL] = pre @ stem @ CHR ''/'' # seg @ (NUL # v @ rest)"
    by (simp add: chop xs_def)
  have ns: "NUL \<notin> set (stem @ CHR ''/'' # seg)" using nn by simp
  have hd: "NUL # v @ rest = [] \<or> hd (NUL # v @ rest) = NUL" by simp
  have q: "strrchr (buf[r := NUL]) (length pre) CHR ''/'' = Some q"
    unfolding chop2 q_def by (rule strrchr_in_buffer [OF ns hd sl(1)])
  have rst: "buf[r := NUL, r := CHR ''/''] = buf"
    unfolding chop unfolding r_def b1 by (rule update_in_buffer)
  have len: "r - q - 1 = length seg" by (simp add: r_def q_def xs_def)
  have b2: "buf = (pre @ stem @ ''/'') @ seg @ (CHR ''/'' # v @ rest)" by (simp add: buf)
  have q1: "q + 1 = length (pre @ stem @ ''/'')" by (simp add: q_def)
  have dig: "allDigits buf (q + 1) (length seg) = list_all isdigit seg"
    unfolding q1 by (subst b2) (rule allDigits_in_buffer)
  have b3: "buf = (pre @ stem @ ''/'') @ seg @ (CHR ''/'' # v) @ rest" by (simp add: buf)
  have nk: "NUL \<notin> set (seg @ CHR ''/'' # v)" using nn by simp
  have key: "isDLpkey buf (q + 1) (length seg) = (seg \<in> set dl_pkeys)"
    unfolding q1 by (subst b3) (rule isDLpkey_in_buffer [OF nk rest])
  have "scan_back buf (length pre) (length pre) =
     (if length seg < 2 \<or> 4 < length seg \<or> \<not> list_all isdigit seg then (buf, None)
      else if seg \<in> set dl_pkeys then (buf, Some q)
      else scan_back (buf[q := NUL]) (length pre) q)"
    by (subst scan_back.simps) (simp only: r id option.case q rst len dig key)
  then show ?thesis
    by (auto simp: valid_ai_form_def q_def)
qed

lemma NUL_not_uriCharacter: "NUL \<notin> set uriCharacters"
  by (simp add: uriCharacters_def)

lemma cstr_whole: "NUL \<notin> set s \<Longrightarrow> cstr s 0 = s"
  unfolding cstr_def drop_0 by (rule takeWhile_eq_all_conv [THEN iffD2]) auto

lemma skip_scheme_http:
  assumes "NUL \<notin> set s"
  shows "skip_scheme (''http://'' @ s) = Some 7" and "skip_scheme (''https://'' @ s) = Some 8"
proof -
  have 1: "cstr (''http://'' @ s) 0 = ''http://'' @ s" using assms by (intro cstr_whole) simp
  have 2: "cstr (''https://'' @ s) 0 = ''https://'' @ s" using assms by (intro cstr_whole) simp
  show "skip_scheme (''http://'' @ s) = Some 7"
    unfolding skip_scheme_def strlen_def 1 by (simp add: strncmp_eq_def)
  show "skip_scheme (''https://'' @ s) = Some 8"
    unfolding skip_scheme_def strlen_def 2 by (simp add: strncmp_eq_def)
qed

lemma split_uri_shape:
  assumes uri: "dlData = scheme @ host @ path @ tail"
    and sch: "scheme = ''http://'' \<or> scheme = ''https://''"
    and host: "host \<noteq> []" "CHR ''/'' \<notin> set host"
    and path: "path \<noteq> []" "hd path = CHR ''/''" "CHR ''?'' \<notin> set path" "CHR ''#'' \<notin> set path"
    and tail: "tail = [] \<or> hd tail = CHR ''?'' \<or> hd tail = CHR ''#''"
    and legal: "set dlData \<subseteq> set uriCharacters"
  shows "\<exists>rest qp fr. split_uri dlData
            = Inr (length (scheme @ host), (scheme @ host) @ path @ rest, qp, fr)
          \<and> (rest = [] \<or> hd rest = NUL)"
proof -
  define pre where "pre = scheme @ host"
  from legal NUL_not_uriCharacter have n0: "NUL \<notin> set dlData" by auto
  then have nparts: "NUL \<notin> set host" "NUL \<notin> set path" "NUL \<notin> set tail"
    by (simp_all add: uri)
  have u: "dlData = pre @ path @ tail" by (simp add: uri pre_def)
  have c0: "cstr dlData 0 = dlData" using n0 by (rule cstr_whole)
  have "takeWhile (\<lambda>c. c \<in> set uriCharacters) dlData = dlData"
    by (rule takeWhile_eq_all_conv [THEN iffD2]) (use legal in auto)
  then have span: "strspn dlData 0 uriCharacters = strlen dlData 0"
    by (simp only: strspn_def strlen_def c0)
  have nrest: "NUL \<notin> set (host @ path @ tail)" using nparts by simp
  have sk: "skip_scheme dlData = Some (length scheme)"
    using sch skip_scheme_http [OF nrest] by (auto simp: uri)
  obtain path' where p': "path = CHR ''/'' # path'"
    using path(1,2) by (cases path) auto
  have sl: "strchr dlData (length scheme) CHR ''/'' = Some (length pre)"
  proof -
    have e: "dlData = scheme @ host @ CHR ''/'' # (path' @ tail) @ []" by (simp add: uri p')
    have n: "NUL \<notin> set (host @ CHR ''/'' # (path' @ tail))" using nrest by (simp add: p')
    have "strchr dlData (length scheme) CHR ''/'' = Some (length scheme + length host)"
      by (subst e) (rule strchr_in_buffer [OF n _ host(2)], simp)
    then show ?thesis by (simp add: pre_def)
  qed
  have dl: "\<not> length pre - length scheme < 1" using host(1) by (simp add: pre_def)
  have head: "split_uri dlData =
      (case strchr dlData (length pre) CHR ''#'' of
         None \<Rightarrow>
           (case strchr dlData (length pre) CHR ''?'' of
              None \<Rightarrow> Inr (length pre, dlData, None, None)
            | Some q \<Rightarrow> Inr (length pre, dlData[q := NUL], Some (q + 1), None))
       | Some f \<Rightarrow>
           (case strchr (dlData[f := NUL]) (length pre) CHR ''?'' of
              None \<Rightarrow> Inr (length pre, dlData[f := NUL], None, Some (f + 1))
            | Some q \<Rightarrow>
                Inr (length pre, dlData[f := NUL, q := NUL], Some (q + 1), Some (f + 1))))"
    unfolding split_uri_def by (simp only: span sk sl dl option.case if_False simp_thms)
  have e0: "[] = [] \<or> hd [] = NUL" by simp
  show ?thesis
  proof (cases tail)
    case Nil
    have u0: "dlData = pre @ path @ []" by (simp add: u Nil)
    have h: "strchr dlData (length pre) CHR ''#'' = None"
      by (subst u0) (rule strchr_none_in_buffer [OF nparts(2) e0 path(4)])
    have q: "strchr dlData (length pre) CHR ''?'' = None"
      by (subst u0) (rule strchr_none_in_buffer [OF nparts(2) e0 path(3)])
    have "split_uri dlData = Inr (length pre, pre @ path @ [], None, None)"
      by (simp only: head h q option.case) (simp add: u0)
    then show ?thesis unfolding pre_def by blast
  next
    case (Cons t0 t)
    with tail have t0: "t0 = CHR ''?'' \<or> t0 = CHR ''#''" by simp
    from nparts(3) Cons have nt: "NUL \<notin> set t" by simp
    show ?thesis
    proof (cases "t0 = CHR ''#''")
      case True
      have u1: "dlData = pre @ path @ CHR ''#'' # t @ []" by (simp add: u Cons True)
      have n1: "NUL \<notin> set (path @ CHR ''#'' # t)" using nparts(2) nt by simp
      have h: "strchr dlData (length pre) CHR ''#'' = Some (length pre + length path)"
        by (subst u1) (rule strchr_in_buffer [OF n1 e0 path(4)])
      have c: "dlData[length pre + length path := NUL] = pre @ path @ NUL # t"
        using update_in_buffer [of pre path "CHR ''#''" t NUL] by (simp add: u Cons True)
      have r1: "NUL # t = [] \<or> hd (NUL # t) = NUL" by simp
      have q: "strchr (dlData[length pre + length path := NUL]) (length pre) CHR ''?'' = None"
        unfolding c by (rule strchr_none_in_buffer [OF nparts(2) r1 path(3)])
      have "split_uri dlData = Inr (length pre, pre @ path @ NUL # t, None,
               Some (length pre + length path + 1))"
        by (simp only: head h option.case, simp only: q option.case, simp only: c)
      with r1 show ?thesis unfolding pre_def by blast
    next
      case False
      with t0 have tq: "t0 = CHR ''?''" by simp
      show ?thesis
      proof (cases "CHR ''#'' \<in> set t")
        case nofrag: False
        have u1: "dlData = pre @ (path @ CHR ''?'' # t) @ []" by (simp add: u Cons tq)
        have n1: "NUL \<notin> set (path @ CHR ''?'' # t)" using nparts(2) nt by simp
        have nh: "CHR ''#'' \<notin> set (path @ CHR ''?'' # t)" using path(4) nofrag by simp
        have h: "strchr dlData (length pre) CHR ''#'' = None"
          by (subst u1) (rule strchr_none_in_buffer [OF n1 e0 nh])
        have u2: "dlData = pre @ path @ CHR ''?'' # t @ []" by (simp add: u Cons tq)
        have q: "strchr dlData (length pre) CHR ''?'' = Some (length pre + length path)"
          by (subst u2) (rule strchr_in_buffer [OF n1 e0 path(3)])
        have c: "dlData[length pre + length path := NUL] = pre @ path @ NUL # t"
          using update_in_buffer [of pre path "CHR ''?''" t NUL] by (simp add: u Cons tq)
        have r1: "NUL # t = [] \<or> hd (NUL # t) = NUL" by simp
        have "split_uri dlData = Inr (length pre, pre @ path @ NUL # t,
                 Some (length pre + length path + 1), None)"
          by (simp only: head h option.case, simp only: q option.case, simp only: c)
        with r1 show ?thesis unfolding pre_def by blast
      next
        case True
        then obtain t1 t2 where t: "t = t1 @ CHR ''#'' # t2" and t1: "CHR ''#'' \<notin> set t1"
          by (auto dest: split_list_first)
        define xs where "xs = path @ CHR ''?'' # t1"
        have u1: "dlData = pre @ xs @ CHR ''#'' # t2 @ []" by (simp add: u Cons tq t xs_def)
        have n1: "NUL \<notin> set (xs @ CHR ''#'' # t2)" using nparts(2) nt by (simp add: xs_def t)
        have nh: "CHR ''#'' \<notin> set xs" using path(4) t1 by (simp add: xs_def)
        have h: "strchr dlData (length pre) CHR ''#'' = Some (length pre + length xs)"
          by (subst u1) (rule strchr_in_buffer [OF n1 e0 nh])
        have c: "dlData[length pre + length xs := NUL] = pre @ xs @ NUL # t2"
          using update_in_buffer [of pre xs "CHR ''#''" t2 NUL] by (simp add: u1)
        have c': "dlData[length pre + length xs := NUL] = pre @ path @ CHR ''?'' # t1 @ (NUL # t2)"
          unfolding c by (simp add: xs_def)
        have n2: "NUL \<notin> set (path @ CHR ''?'' # t1)" using nparts(2) nt by (simp add: t)
        have r2: "NUL # t2 = [] \<or> hd (NUL # t2) = NUL" by simp
        have q: "strchr (dlData[length pre + length xs := NUL]) (length pre) CHR ''?''
                   = Some (length pre + length path)"
          unfolding c' by (rule strchr_in_buffer [OF n2 r2 path(3)])
        have c2: "dlData[length pre + length xs := NUL, length pre + length path := NUL]
                    = pre @ path @ NUL # t1 @ NUL # t2"
          unfolding c' using update_in_buffer [of pre path "CHR ''?''" "t1 @ NUL # t2" NUL] by simp
        have r1: "NUL # t1 @ NUL # t2 = [] \<or> hd (NUL # t1 @ NUL # t2) = NUL" by simp
        have "split_uri dlData = Inr (length pre, pre @ path @ NUL # t1 @ NUL # t2,
                 Some (length pre + length path + 1), Some (length pre + length xs + 1))"
          by (simp only: head h option.case, simp only: q option.case, simp only: c2)
        with r1 show ?thesis unfolding pre_def by blast
      qed
    qed
  qed
qed

lemma parse_after_failed_search:
  assumes "split_uri dlData = Inr (pinfo, buf, qp, fr)"
    and "scan_back buf pinfo pinfo = (buf1, None)"
  shows "\<exists>c b. gs1_parseDLuri ctx dlData = Some (False, c, b)
           \<and> err c = ''No GS1 DL keys found in path info''"
  using assms by (simp add: gs1_parseDLuri_def parse_fail_def parse_out_def)

lemma invalid_candidate_fails:
  assumes uri: "dlData = scheme @ host @ stem @ ''/'' @ seg @ ''/'' @ v @ tail"
    and sch: "scheme = ''http://'' \<or> scheme = ''https://''"
    and host: "host \<noteq> []" "CHR ''/'' \<notin> set host"
    and stem: "stem = [] \<or> hd stem = CHR ''/''"
    and seg: "CHR ''/'' \<notin> set seg"
    and v: "CHR ''/'' \<notin> set v"
    and tail: "tail = [] \<or> hd tail = CHR ''?'' \<or> hd tail = CHR ''#''"
    and nq: "CHR ''?'' \<notin> set (stem @ seg @ v)"
    and nf: "CHR ''#'' \<notin> set (stem @ seg @ v)"
    and legal: "set dlData \<subseteq> set uriCharacters"
    and bad: "\<not> valid_ai_form seg"
  shows "\<exists>c b. gs1_parseDLuri ctx dlData = Some (False, c, b)
           \<and> err c = ''No GS1 DL keys found in path info''"
proof -
  define path where "path = stem @ CHR ''/'' # seg @ CHR ''/'' # v"
  have u: "dlData = scheme @ host @ path @ tail" by (simp add: uri path_def)
  have p1: "path \<noteq> []" by (simp add: path_def)
  have p2: "hd path = CHR ''/''" using stem by (cases stem) (auto simp: path_def)
  have p3: "CHR ''?'' \<notin> set path" using nq by (simp add: path_def)
  have p4: "CHR ''#'' \<notin> set path" using nf by (simp add: path_def)
  from split_uri_shape [OF u sch host p1 p2 p3 p4 tail legal]
  obtain rest qp fr where sp: "split_uri dlData
            = Inr (length (scheme @ host), (scheme @ host) @ path @ rest, qp, fr)"
    and rest: "rest = [] \<or> hd rest = NUL" by blast
  from legal NUL_not_uriCharacter have "NUL \<notin> set dlData" by auto
  then have nn: "NUL \<notin> set (stem @ seg @ v)" by (simp add: uri)
  have b: "(scheme @ host) @ path @ rest
             = (scheme @ host) @ stem @ CHR ''/'' # seg @ CHR ''/'' # v @ rest"
    by (simp add: path_def)
  from scan_back_first [OF nn rest seg v stem b] bad
  have "scan_back ((scheme @ host) @ path @ rest) (length (scheme @ host)) (length (scheme @ host))
          = ((scheme @ host) @ path @ rest, None)" by simp
  from parse_after_failed_search [OF sp this] show ?thesis .
qed

lemma pkey_valid_ai_form: "seg \<in> set dl_pkeys \<Longrightarrow> valid_ai_form seg"
  by (auto simp: dl_pkeys_def valid_ai_form_def isdigit_def)

lemma path_loop_empty_value:
  assumes buf: "buf = pre @ CHR ''/'' # seg @ CHR ''/'' # rest"
    and rest: "rest = [] \<or> hd rest = NUL"
    and seg: "NUL \<notin> set seg" "CHR ''/'' \<notin> set seg"
  shows "path_loop buf (length pre) aival ctx
           = GotoFail (ctx\<lparr>err := take 127 (''AI ('' @ seg @ '') value path element is empty'')\<rparr>)"
proof -
  define r where "r = length pre + 1 + length seg"
  have pk: "peek buf (length pre) \<noteq> NUL" by (simp add: buf peek_def nth_append)
  have b1: "buf = (pre @ ''/'') @ seg @ CHR ''/'' # [] @ rest" by (simp add: buf)
  have n1: "NUL \<notin> set (seg @ CHR ''/'' # [])" using seg by simp
  have "strchr buf (length (pre @ ''/'')) CHR ''/'' = Some (length (pre @ ''/'') + length seg)"
    by (subst b1) (rule strchr_in_buffer [OF n1 rest seg(2)])
  then have sr: "strchr buf (length pre + 1) CHR ''/'' = Some r" by (simp add: r_def)
  have b2: "buf = (pre @ CHR ''/'' # seg @ ''/'') @ [] @ rest" by (simp add: buf)
  have r1: "r + 1 = length (pre @ CHR ''/'' # seg @ ''/'')" by (simp add: r_def)
  have "cstr buf (r + 1) = []"
    unfolding r1 by (subst b2) (rule cstr_in_buffer [OF _ rest], simp)
  then have ve: "value_end buf (r + 1) = r + 1"
    by (simp add: value_end_def strchr_def strlen_def)
  have b3: "buf = (pre @ ''/'') @ (seg @ ''/'') @ rest" by (simp add: buf)
  have "cstr buf (length (pre @ ''/'')) = seg @ ''/''"
    by (subst b3) (rule cstr_in_buffer [OF _ rest], use seg in simp)
  then have ps: "prec_s (r - (length pre + 1)) buf (length pre + 1) = seg"
    by (simp add: prec_s_def r_def)
  show ?thesis
    by (subst path_loop.simps) (simp only: pk sr ve ps if_False if_True option.case simp_thms)
qed

lemma parse_after_empty_anchor_value:
  assumes "split_uri dlData = Inr (pinfo, buf, qp, fr)"
    and "scan_back buf pinfo pinfo = (buf1, Some dp)"
    and "path_loop buf1 dp aival_start
           (ctx\<lparr>numAIs := 0, aiBuf := (aiBuf ctx)[0 := NUL], err := []\<rparr>)
           = GotoFail
               (ctx\<lparr>numAIs := 0, aiBuf := (aiBuf ctx)[0 := NUL], err := []\<rparr>\<lparr>err := m\<rparr>)"
    and "m \<noteq> []"
  shows "\<exists>c b. gs1_parseDLuri ctx dlData = Some (False, c, b) \<and> err c = m"
  using assms by (simp add: gs1_parseDLuri_def parse_fail_def parse_out_def)

lemma empty_anchor_value_fails:
  assumes uri: "dlData = scheme @ host @ stem @ ''/'' @ seg @ ''/'' @ tail"
    and sch: "scheme = ''http://'' \<or> scheme = ''https://''"
    and host: "host \<noteq> []" "CHR ''/'' \<notin> set host"
    and stem: "stem = [] \<or> hd stem = CHR ''/''"
    and tail: "tail = [] \<or> hd tail = CHR ''?'' \<or> hd tail = CHR ''#''"
    and nq: "CHR ''?'' \<notin> set stem"
    and nf: "CHR ''#'' \<notin> set stem"
    and legal: "set dlData \<subseteq> set uriCharacters"
    and key: "seg \<in> set dl_pkeys"
  shows "\<exists>c b. gs1_parseDLuri ctx dlData = Some (False, c, b)
           \<and> err c = ''AI ('' @ seg @ '') value path element is empty''"
proof -
  from key have vf: "valid_ai_form seg" by (rule pkey_valid_ai_form)
  from key have sg: "CHR ''/'' \<notin> set seg" "CHR ''?'' \<notin> set seg" "CHR ''#'' \<notin> set seg"
    by (auto simp: dl_pkeys_def)
  define path where "path = stem @ CHR ''/'' # seg @ CHR ''/'' # []"
  have u: "dlData = scheme @ host @ path @ tail" by (simp add: uri path_def)
  have p1: "path \<noteq> []" by (simp add: path_def)
  have p2: "hd path = CHR ''/''" using stem by (cases stem) (auto simp: path_def)
  have p3: "CHR ''?'' \<notin> set path" using nq sg by (simp add: path_def)
  have p4: "CHR ''#'' \<notin> set path" using nf sg by (simp add: path_def)
  from split_uri_shape [OF u sch host p1 p2 p3 p4 tail legal]
  obtain rest qp fr where sp: "split_uri dlData
            = Inr (length (scheme @ host), (scheme @ host) @ path @ rest, qp, fr)"
    and rest: "rest = [] \<or> hd rest = NUL" by blast
  from legal NUL_not_uriCharacter have "NUL \<notin> set dlData" by auto
  then have nn: "NUL \<notin> set (stem @ seg @ [])" and ns: "NUL \<notin> set seg" by (simp_all add: uri)
  define buf where "buf = (scheme @ host) @ path @ rest"
  have b: "buf = (scheme @ host) @ stem @ CHR ''/'' # seg @ CHR ''/'' # [] @ rest"
    by (simp add: path_def buf_def)
  from scan_back_first [OF nn rest sg(1) _ stem b] vf key
  have sb: "scan_back buf (length (scheme @ host)) (length (scheme @ host))
          = (buf, Some (length (scheme @ host) + length stem))" by simp
  have b': "buf = (scheme @ host @ stem) @ CHR ''/'' # seg @ CHR ''/'' # rest"
    by (simp add: b)
  have l: "length (scheme @ host) + length stem = length (scheme @ host @ stem)" by simp
  have len: "length seg \<le> 4" using vf by (simp add: valid_ai_form_def)
  then have tk: "take 127 (''AI ('' @ seg @ '') value path element is empty'')
              = ''AI ('' @ seg @ '') value path element is empty''" by simp
  have pl: "path_loop buf (length (scheme @ host) + length stem) aival_start
              (ctx\<lparr>numAIs := 0, aiBuf := (aiBuf ctx)[0 := NUL], err := []\<rparr>)
           = GotoFail (ctx\<lparr>numAIs := 0, aiBuf := (aiBuf ctx)[0 := NUL], err := []\<rparr>
                \<lparr>err := ''AI ('' @ seg @ '') value path element is empty''\<rparr>)"
    unfolding l using path_loop_empty_value [OF b' rest ns sg(1)] by (simp only: tk)
  have ne: "''AI ('' @ seg @ '') value path element is empty'' \<noteq> []" by simp
  from parse_after_empty_anchor_value [OF sp [folded buf_def] sb pl ne] show ?thesis .
qed

text \<open>
  The search over the whole path. The path before a chop is a stem followed by pairs
  \<open>/AI/value\<close>; each pass of the loop reads the last pair of what is left, and the loop
  ends without a key or with \<open>dp\<close> at the start of a pair, the array restored.
\<close>

definition pairs_text :: "(char list \<times> char list) list \<Rightarrow> char list" where
  "pairs_text ps = concat (map (\<lambda>(a, v). CHR ''/'' # a @ CHR ''/'' # v) ps)"

definition pairs_ok :: "(char list \<times> char list) list \<Rightarrow> bool" where
  "pairs_ok ps = list_all (\<lambda>(a, v). CHR ''/'' \<notin> set a \<and> CHR ''/'' \<notin> set v) ps"

lemma scan_back_iter:
  assumes nn: "NUL \<notin> set (stem @ seg @ v @ t)" and rest: "rest = [] \<or> hd rest = NUL"
    and sl: "CHR ''/'' \<notin> set seg" "CHR ''/'' \<notin> set v"
    and buf0: "buf0 = pre @ stem @ CHR ''/'' # seg @ CHR ''/'' # v @ CHR ''/'' # t @ rest"
    and q: "q = length pre + length stem + length seg + length v + 2"
  shows "scan_back (buf0[q := NUL]) (length pre) q =
     (if \<not> valid_ai_form seg then (buf0, None)
      else if seg \<in> set dl_pkeys then (buf0, Some (length pre + length stem))
      else scan_back (buf0[length pre + length stem := NUL]) (length pre)
             (length pre + length stem))"
proof -
  define xs where "xs = stem @ CHR ''/'' # seg"
  define r where "r = length pre + length xs"
  define q' where "q' = length pre + length stem"
  define buf where "buf = buf0[q := NUL]"
  have b0: "buf0 = pre @ (xs @ CHR ''/'' # v) @ CHR ''/'' # (t @ rest)"
    by (simp add: buf0 xs_def)
  have ql: "q = length pre + length (xs @ CHR ''/'' # v)" by (simp add: q xs_def)
  have c0: "buf = pre @ (xs @ CHR ''/'' # v) @ NUL # (t @ rest)"
    unfolding buf_def ql by (subst b0) (rule update_in_buffer)
  have c1: "buf = pre @ xs @ CHR ''/'' # v @ (NUL # t @ rest)" by (simp add: c0)
  have nx: "NUL \<notin> set (xs @ CHR ''/'' # v)" using nn by (simp add: xs_def)
  have hdN: "\<And>z. NUL # z = [] \<or> hd (NUL # z) = NUL" by simp
  have r: "strrchr buf (length pre) CHR ''/'' = Some r"
    unfolding r_def by (subst c1) (rule strrchr_in_buffer [OF nx hdN sl(2)])
  have restore: "buf[q := CHR ''/''] = buf0"
    unfolding ql by (subst c0, subst b0) (rule update_in_buffer)
  have b1: "buf0 = pre @ xs @ CHR ''/'' # (v @ CHR ''/'' # t @ rest)" by (simp add: buf0 xs_def)
  have chop: "buf0[r := NUL] = pre @ xs @ NUL # (v @ CHR ''/'' # t @ rest)"
    unfolding r_def by (subst b1) (rule update_in_buffer)
  have chop2: "buf0[r := NUL] = pre @ stem @ CHR ''/'' # seg @ (NUL # v @ CHR ''/'' # t @ rest)"
    by (simp add: chop xs_def)
  have ns: "NUL \<notin> set (stem @ CHR ''/'' # seg)" using nn by simp
  have q': "strrchr (buf0[r := NUL]) (length pre) CHR ''/'' = Some q'"
    unfolding chop2 q'_def by (rule strrchr_in_buffer [OF ns hdN sl(1)])
  have rst: "buf0[r := NUL, r := CHR ''/''] = buf0"
    unfolding chop unfolding r_def by (subst b1) (rule update_in_buffer)
  have len: "r - q' - 1 = length seg" by (simp add: r_def q'_def xs_def)
  have b2: "buf0 = (pre @ stem @ ''/'') @ seg @ (CHR ''/'' # v @ CHR ''/'' # t @ rest)"
    by (simp add: buf0)
  have q1: "q' + 1 = length (pre @ stem @ ''/'')" by (simp add: q'_def)
  have dig: "allDigits buf0 (q' + 1) (length seg) = list_all isdigit seg"
    unfolding q1 by (subst b2) (rule allDigits_in_buffer)
  have b3: "buf0 = (pre @ stem @ ''/'') @ seg @ (CHR ''/'' # v @ CHR ''/'' # t) @ rest"
    by (simp add: buf0)
  have nk: "NUL \<notin> set (seg @ CHR ''/'' # v @ CHR ''/'' # t)" using nn by simp
  have key: "isDLpkey buf0 (q' + 1) (length seg) = (seg \<in> set dl_pkeys)"
    unfolding q1 by (subst b3) (rule isDLpkey_in_buffer [OF nk rest])
  have "scan_back buf (length pre) q =
     (if length seg < 2 \<or> 4 < length seg \<or> \<not> list_all isdigit seg then (buf0, None)
      else if seg \<in> set dl_pkeys then (buf0, Some q')
      else scan_back (buf0[q' := NUL]) (length pre) q')"
    by (subst scan_back.simps) (simp only: r restore option.case q' rst len dig key)
  then show ?thesis
    unfolding buf_def by (auto simp: valid_ai_form_def q'_def)
qed

lemma pairs_text_snoc: "pairs_text (ps @ [(a, v)]) = pairs_text ps @ CHR ''/'' # a @ CHR ''/'' # v"
  by (simp add: pairs_text_def)

lemma scan_back_chain:
  assumes rest: "rest = [] \<or> hd rest = NUL"
  shows "NUL \<notin> set (stem @ t) \<Longrightarrow> stem = [] \<or> hd stem = CHR ''/'' \<Longrightarrow>
         buf0 = pre @ stem @ CHR ''/'' # t @ rest \<Longrightarrow>
         (\<exists>b. scan_back (buf0[length pre + length stem := NUL]) (length pre)
                 (length pre + length stem) = (b, None))
         \<or> (\<exists>stem1 ps. stem = stem1 @ pairs_text ps \<and> pairs_ok ps
               \<and> scan_back (buf0[length pre + length stem := NUL]) (length pre)
                    (length pre + length stem) = (buf0, Some (length pre + length stem1)))"
proof (induction "length stem" arbitrary: stem t rule: less_induct)
  case less
  note nn = less.prems(1) and st = less.prems(2) and b0 = less.prems(3)
  define q where "q = length pre + length stem"
  define buf where "buf = buf0[q := NUL]"
  have hdN: "\<And>z. NUL # z = [] \<or> hd (NUL # z) = NUL" by simp
  have c0: "buf = pre @ stem @ NUL # (t @ rest)"
    unfolding buf_def q_def by (subst b0) (rule update_in_buffer)
  have ns: "NUL \<notin> set stem" using nn by simp
  show ?case
  proof (cases "CHR ''/'' \<in> set stem")
    case False
    have "strrchr buf (length pre) CHR ''/'' = None"
      unfolding c0 by (rule strrchr_none_in_buffer [OF ns hdN False])
    then have "scan_back buf (length pre) q = (buf, None)"
      by (subst scan_back.simps) simp
    then show ?thesis unfolding buf_def q_def by blast
  next
    case True
    then obtain y v where y: "stem = y @ CHR ''/'' # v" and v: "CHR ''/'' \<notin> set v"
      by (auto dest: split_list_last)
    show ?thesis
    proof (cases "CHR ''/'' \<in> set y")
      case False
      have "y = []"
      proof (rule ccontr)
        assume "y \<noteq> []"
        with st y have "hd y = CHR ''/''" by (cases y) auto
        with \<open>y \<noteq> []\<close> False show False by (cases y) auto
      qed
      with y have s1: "stem = CHR ''/'' # v" by simp
      have c1: "buf = pre @ [] @ CHR ''/'' # v @ (NUL # t @ rest)" by (simp add: c0 s1)
      have nv: "NUL \<notin> set ([] @ CHR ''/'' # v)" using ns by (simp add: s1)
      have "strrchr buf (length pre) CHR ''/'' = Some (length pre + length ([] :: char list))"
        by (subst c1) (rule strrchr_in_buffer [OF nv hdN v])
      then have r: "strrchr buf (length pre) CHR ''/'' = Some (length pre)" by simp
      have restore: "buf[q := CHR ''/''] = buf0"
        unfolding q_def by (subst c0, subst b0) (rule update_in_buffer)
      have b1: "buf0 = pre @ [] @ CHR ''/'' # (v @ CHR ''/'' # t @ rest)" by (simp add: b0 s1)
      have "buf0[length pre + length ([] :: char list) := NUL]
              = pre @ [] @ NUL # (v @ CHR ''/'' # t @ rest)"
        by (subst b1) (rule update_in_buffer)
      then have chop: "buf0[length pre := NUL] = pre @ [] @ NUL # (v @ CHR ''/'' # t @ rest)"
        by simp
      have e: "NUL \<notin> set ([] :: char list)" "CHR ''/'' \<notin> set ([] :: char list)" by simp_all
      have n2: "strrchr (buf0[length pre := NUL]) (length pre) CHR ''/'' = None"
        unfolding chop by (rule strrchr_none_in_buffer [OF e(1) hdN e(2)])
      have "scan_back buf (length pre) q = (buf0[length pre := NUL, length pre := CHR ''/''], None)"
        by (subst scan_back.simps) (simp only: r restore option.case n2)
      then show ?thesis unfolding buf_def q_def by blast
    next
      case True
      then obtain stem' a where y2: "y = stem' @ CHR ''/'' # a" and a: "CHR ''/'' \<notin> set a"
        by (auto dest: split_list_last)
      have s2: "stem = stem' @ CHR ''/'' # a @ CHR ''/'' # v" by (simp add: y y2)
      have st': "stem' = [] \<or> hd stem' = CHR ''/''" using st s2 by (cases stem') auto
      have nn2: "NUL \<notin> set (stem' @ a @ v @ t)" using nn by (simp add: s2)
      have b2: "buf0 = pre @ stem' @ CHR ''/'' # a @ CHR ''/'' # v @ CHR ''/'' # t @ rest"
        by (simp add: b0 s2)
      have q2: "q = length pre + length stem' + length a + length v + 2" by (simp add: q_def s2)
      note it = scan_back_iter [OF nn2 rest a v b2 q2]
      show ?thesis
      proof (cases "valid_ai_form a")
        case False
        with it have "scan_back (buf0[q := NUL]) (length pre) q = (buf0, None)" by simp
        then show ?thesis unfolding q_def by blast
      next
        case va: True
        show ?thesis
        proof (cases "a \<in> set dl_pkeys")
          case True
          with it va have "scan_back (buf0[q := NUL]) (length pre) q
                             = (buf0, Some (length pre + length stem'))" by simp
          moreover have "stem = stem' @ pairs_text [(a, v)]" by (simp add: s2 pairs_text_def)
          moreover have "pairs_ok [(a, v)]" using a v by (simp add: pairs_ok_def)
          ultimately show ?thesis unfolding q_def by blast
        next
          case False
          with it va have step: "scan_back (buf0[q := NUL]) (length pre) q
              = scan_back (buf0[length pre + length stem' := NUL]) (length pre)
                  (length pre + length stem')" by simp
          have lt: "length stem' < length stem" by (simp add: s2)
          have nn3: "NUL \<notin> set (stem' @ (a @ CHR ''/'' # v @ CHR ''/'' # t))"
            using nn2 by simp
          have b3: "buf0 = pre @ stem' @ CHR ''/'' # (a @ CHR ''/'' # v @ CHR ''/'' # t) @ rest"
            by (simp add: b2)
          from less.hyps [OF lt nn3 st' b3]
          show ?thesis
          proof
            assume "\<exists>b. scan_back (buf0[length pre + length stem' := NUL]) (length pre)
                       (length pre + length stem') = (b, None)"
            with step show ?thesis unfolding q_def by simp
          next
            assume "\<exists>stem1 ps. stem' = stem1 @ pairs_text ps \<and> pairs_ok ps
               \<and> scan_back (buf0[length pre + length stem' := NUL]) (length pre)
                    (length pre + length stem') = (buf0, Some (length pre + length stem1))"
            then obtain stem1 ps where h: "stem' = stem1 @ pairs_text ps" "pairs_ok ps"
              "scan_back (buf0[length pre + length stem' := NUL]) (length pre)
                    (length pre + length stem') = (buf0, Some (length pre + length stem1))"
              by blast
            have "stem = stem1 @ pairs_text (ps @ [(a, v)])"
              by (simp add: s2 h(1) pairs_text_snoc)
            moreover have "pairs_ok (ps @ [(a, v)])" using h(2) a v by (simp add: pairs_ok_def)
            ultimately show ?thesis using step h(3) unfolding q_def by metis
          qed
        qed
      qed
    qed
  qed
qed

lemma store_element_no_crash: "store_element ctx buf a alen aival vlen \<noteq> Crash"
  by (simp add: store_element_def split: prod.splits option.splits)

lemma pairs_text_Cons:
  "pairs_text ((a, v) # ps) = CHR ''/'' # a @ CHR ''/'' # v @ pairs_text ps"
  by (simp add: pairs_text_def)

lemma path_loop_pairs_fail:
  assumes rest: "rest = [] \<or> hd rest = NUL"
    and seg: "NUL \<notin> set seg" "CHR ''/'' \<notin> set seg"
  shows "pairs_ok ps \<Longrightarrow> NUL \<notin> set (pairs_text ps) \<Longrightarrow>
         buf = pre @ pairs_text ps @ CHR ''/'' # seg @ CHR ''/'' # rest \<Longrightarrow>
         \<exists>c. path_loop buf (length pre) aival ctx = GotoFail c"
proof (induction ps arbitrary: pre aival ctx)
  case Nil
  then have b: "buf = pre @ CHR ''/'' # seg @ CHR ''/'' # rest" by (simp add: pairs_text_def)
  from path_loop_empty_value [OF b rest seg] show ?case by blast
next
  case (Cons av ps)
  obtain a v where av: "av = (a, v)" by (cases av)
  from Cons.prems(1) have ok: "CHR ''/'' \<notin> set a" "CHR ''/'' \<notin> set v" "pairs_ok ps"
    by (simp_all add: av pairs_ok_def)
  from Cons.prems(2) have nn: "NUL \<notin> set a" "NUL \<notin> set v" "NUL \<notin> set (pairs_text ps)"
    by (simp_all add: av pairs_text_Cons)
  define tl where "tl = pairs_text ps @ CHR ''/'' # seg @ ''/''"
  have ntl: "NUL \<notin> set tl" using nn(3) seg(1) by (simp add: tl_def)
  obtain tl' where tl': "tl = CHR ''/'' # tl'"
    by (cases ps) (auto simp: tl_def pairs_text_def)
  have b: "buf = pre @ CHR ''/'' # a @ CHR ''/'' # v @ tl @ rest"
    using Cons.prems(3) by (simp add: av pairs_text_Cons tl_def)
  define p where "p = length pre"
  define r where "r = p + 1 + length a"
  define e where "e = r + 1 + length v"
  have pk: "peek buf p \<noteq> NUL" by (simp add: b p_def peek_def nth_append)
  have b1: "buf = (pre @ ''/'') @ a @ CHR ''/'' # (v @ tl) @ rest" by (simp add: b)
  have n1: "NUL \<notin> set (a @ CHR ''/'' # (v @ tl))" using nn ntl by simp
  have "strchr buf (length (pre @ ''/'')) CHR ''/'' = Some (length (pre @ ''/'') + length a)"
    by (subst b1) (rule strchr_in_buffer [OF n1 rest ok(1)])
  then have sr: "strchr buf (p + 1) CHR ''/'' = Some r" by (simp add: r_def p_def)
  have b2: "buf = (pre @ CHR ''/'' # a @ ''/'') @ v @ CHR ''/'' # tl' @ rest"
    by (simp add: b tl')
  have r1: "r + 1 = length (pre @ CHR ''/'' # a @ ''/'')" by (simp add: r_def p_def)
  have n2: "NUL \<notin> set (v @ CHR ''/'' # tl')" using nn(2) ntl by (simp add: tl')
  have "strchr buf (r + 1) CHR ''/'' = Some (r + 1 + length v)"
    unfolding r1 by (subst b2) (rule strchr_in_buffer [OF n2 rest ok(2)])
  then have ve: "value_end buf (r + 1) = e"
    unfolding value_end_def e_def by (simp only: option.case)
  define pre' where "pre' = pre @ CHR ''/'' # a @ CHR ''/'' # v"
  have el: "e = length pre'" by (simp add: e_def r_def p_def pre'_def)
  have b3: "buf = pre' @ pairs_text ps @ CHR ''/'' # seg @ CHR ''/'' # rest"
    by (simp add: b pre'_def tl_def)
  have IH: "\<And>aival ctx. \<exists>c. path_loop buf e aival ctx = GotoFail c"
    unfolding el by (rule Cons.IH [OF ok(3) nn(3) b3])
  obtain aival1 vlen where U: "URIunescape aival GS1_DL_MAX_AI_LEN buf (r + 1)
                        (e - (r + 1)) False = (aival1, vlen)" by (cases "URIunescape aival GS1_DL_MAX_AI_LEN buf (r + 1)
                        (e - (r + 1)) False")
  have unf: "path_loop buf p aival ctx =
     (if e = r + 1
      then GotoFail (ctx\<lparr>err := take 127
             (''AI ('' @ prec_s (r - (p + 1)) buf (p + 1) @ '') value path element is empty'')\<rparr>)
      else if vlen = 0
      then GotoFail (ctx\<lparr>err := ''Decoded AI ('' @ prec_s (r - (p + 1)) buf (p + 1)
                             @ '') from DL path info too long''\<rparr>)
      else (case store_element ctx buf (p + 1) (r - (p + 1)) aival1 vlen of
              Continue aival2 ctx2 \<Rightarrow> path_loop buf e aival2 ctx2
            | GotoFail c \<Rightarrow> GotoFail c
            | Crash \<Rightarrow> Crash))"
    by (subst path_loop.simps) (simp only: pk sr ve U if_False option.case prod.case)
  show ?case
  proof (cases "store_element ctx buf (p + 1) (r - (p + 1)) aival1 vlen")
    case (Continue aival2 ctx2)
    with unf IH [of aival2 ctx2] show ?thesis unfolding p_def by auto
  next
    case (GotoFail c)
    with unf show ?thesis unfolding p_def by auto
  next
    case Crash
    with store_element_no_crash show ?thesis by blast
  qed
qed

lemma parse_after_path_failure:
  assumes "split_uri dlData = Inr (pinfo, buf, qp, fr)"
    and "scan_back buf pinfo pinfo = (buf1, Some dp)"
    and "path_loop buf1 dp aival_start
           (ctx\<lparr>numAIs := 0, aiBuf := (aiBuf ctx)[0 := NUL], err := []\<rparr>)
           = GotoFail c"
  shows "\<exists>c' b. gs1_parseDLuri ctx dlData = Some (False, c', b)"
  using assms by (simp add: gs1_parseDLuri_def parse_fail_def parse_out_def)

lemma trailing_slash_never_parses:
  assumes uri: "dlData = scheme @ host @ stem @ ''/'' @ seg @ ''/'' @ tail"
    and sch: "scheme = ''http://'' \<or> scheme = ''https://''"
    and host: "host \<noteq> []" "CHR ''/'' \<notin> set host"
    and stem: "stem = [] \<or> hd stem = CHR ''/''"
    and sg: "CHR ''/'' \<notin> set seg"
    and tail: "tail = [] \<or> hd tail = CHR ''?'' \<or> hd tail = CHR ''#''"
    and nq: "CHR ''?'' \<notin> set (stem @ seg)"
    and nf: "CHR ''#'' \<notin> set (stem @ seg)"
    and legal: "set dlData \<subseteq> set uriCharacters"
  shows "\<exists>c b. gs1_parseDLuri ctx dlData = Some (False, c, b)"
proof -
  define path where "path = stem @ CHR ''/'' # seg @ CHR ''/'' # []"
  define pre where "pre = scheme @ host"
  have u: "dlData = scheme @ host @ path @ tail" by (simp add: uri path_def)
  have p1: "path \<noteq> []" by (simp add: path_def)
  have p2: "hd path = CHR ''/''" using stem by (cases stem) (auto simp: path_def)
  have p3: "CHR ''?'' \<notin> set path" using nq by (simp add: path_def)
  have p4: "CHR ''#'' \<notin> set path" using nf by (simp add: path_def)
  from split_uri_shape [OF u sch host p1 p2 p3 p4 tail legal]
  obtain rest qp fr where sp0: "split_uri dlData
            = Inr (length (scheme @ host), (scheme @ host) @ path @ rest, qp, fr)"
    and rest: "rest = [] \<or> hd rest = NUL" by blast
  define buf where "buf = pre @ path @ rest"
  have sp: "split_uri dlData = Inr (length pre, buf, qp, fr)"
    using sp0 by (simp add: pre_def buf_def)
  from legal NUL_not_uriCharacter have "NUL \<notin> set dlData" by auto
  then have nn: "NUL \<notin> set (stem @ seg @ [])" and ns: "NUL \<notin> set seg"
    and nst: "NUL \<notin> set (stem @ (seg @ ''/''))" by (simp_all add: uri)
  have b: "buf = pre @ stem @ CHR ''/'' # seg @ CHR ''/'' # [] @ rest"
    by (simp add: path_def buf_def)
  note first = scan_back_first [OF nn rest sg _ stem b]
  show ?thesis
  proof (cases "valid_ai_form seg \<and> seg \<notin> set dl_pkeys")
    case False
    then consider "\<not> valid_ai_form seg" | "seg \<in> set dl_pkeys" by blast
    then show ?thesis
    proof cases
      case 1
      with first have "scan_back buf (length pre) (length pre) = (buf, None)" by simp
      from parse_after_failed_search [OF sp this] show ?thesis by blast
    next
      case 2
      from empty_anchor_value_fails [OF uri sch host stem tail _ _ legal 2, of ctx] nq nf
      show ?thesis by auto
    qed
  next
    case True
    with first have step: "scan_back buf (length pre) (length pre)
        = scan_back (buf[length pre + length stem := NUL]) (length pre) (length pre + length stem)"
      by simp
    have b2: "buf = pre @ stem @ CHR ''/'' # (seg @ ''/'') @ rest" by (simp add: b)
    from scan_back_chain [OF rest nst stem b2]
    show ?thesis
    proof
      assume "\<exists>b. scan_back (buf[length pre + length stem := NUL]) (length pre)
                 (length pre + length stem) = (b, None)"
      then obtain b1 where "scan_back buf (length pre) (length pre) = (b1, None)"
        using step by auto
      from parse_after_failed_search [OF sp this] show ?thesis by blast
    next
      assume "\<exists>stem1 ps. stem = stem1 @ pairs_text ps \<and> pairs_ok ps
               \<and> scan_back (buf[length pre + length stem := NUL]) (length pre)
                    (length pre + length stem) = (buf, Some (length pre + length stem1))"
      then obtain stem1 ps where h: "stem = stem1 @ pairs_text ps" "pairs_ok ps"
        and sb: "scan_back buf (length pre) (length pre) = (buf, Some (length pre + length stem1))"
        using step by auto
      have np: "NUL \<notin> set (pairs_text ps)" using nn by (simp add: h(1))
      have b3: "buf = (pre @ stem1) @ pairs_text ps @ CHR ''/'' # seg @ CHR ''/'' # rest"
        by (simp add: b h(1))
      from path_loop_pairs_fail [OF rest ns sg h(2) np b3]
      obtain c where "path_loop buf (length pre + length stem1) aival_start
           (ctx\<lparr>numAIs := 0, aiBuf := (aiBuf ctx)[0 := NUL], err := []\<rparr>) = GotoFail c"
        by (metis length_append)
      from parse_after_path_failure [OF sp sb this] show ?thesis .
    qed
  qed
qed

lemma root_path_fails:
  assumes uri: "dlData = scheme @ host @ ''/'' @ tail"
    and sch: "scheme = ''http://'' \<or> scheme = ''https://''"
    and host: "host \<noteq> []" "CHR ''/'' \<notin> set host"
    and tail: "tail = [] \<or> hd tail = CHR ''?'' \<or> hd tail = CHR ''#''"
    and legal: "set dlData \<subseteq> set uriCharacters"
  shows "\<exists>c b. gs1_parseDLuri ctx dlData = Some (False, c, b)
           \<and> err c = ''No GS1 DL keys found in path info''"
proof -
  define pre where "pre = scheme @ host"
  have p: "''/'' \<noteq> []" "hd ''/'' = CHR ''/''" "CHR ''?'' \<notin> set ''/''" "CHR ''#'' \<notin> set ''/''"
    by simp_all
  from split_uri_shape [OF uri sch host p tail legal]
  obtain rest qp fr where sp0: "split_uri dlData
            = Inr (length (scheme @ host), (scheme @ host) @ ''/'' @ rest, qp, fr)"
    and rest: "rest = [] \<or> hd rest = NUL" by blast
  define buf where "buf = pre @ [] @ CHR ''/'' # [] @ rest"
  have sp: "split_uri dlData = Inr (length pre, buf, qp, fr)"
    using sp0 by (simp add: pre_def buf_def)
  have e: "NUL \<notin> set ([] @ CHR ''/'' # [])" "CHR ''/'' \<notin> set ([] :: char list)"
    "NUL \<notin> set ([] :: char list)" by simp_all
  have "strrchr buf (length pre) CHR ''/'' = Some (length pre + length ([] :: char list))"
    unfolding buf_def by (rule strrchr_in_buffer [OF e(1) rest e(2)])
  then have r: "strrchr buf (length pre) CHR ''/'' = Some (length pre)" by simp
  have "buf[length pre + length ([] :: char list) := CHR ''/''] = buf"
    unfolding buf_def by (rule update_in_buffer)
  then have id: "buf[length pre := CHR ''/''] = buf" by simp
  have "buf[length pre + length ([] :: char list) := NUL] = pre @ [] @ NUL # ([] @ rest)"
    unfolding buf_def by (rule update_in_buffer)
  then have chop: "buf[length pre := NUL] = pre @ [] @ (NUL # rest)" by simp
  have hdN: "NUL # rest = [] \<or> hd (NUL # rest) = NUL" by simp
  have n2: "strrchr (buf[length pre := NUL]) (length pre) CHR ''/'' = None"
    unfolding chop by (rule strrchr_none_in_buffer [OF e(3) hdN e(2)])
  have "scan_back buf (length pre) (length pre)
          = (buf[length pre := NUL, length pre := CHR ''/''], None)"
    by (subst scan_back.simps) (simp only: r id option.case n2)
  from parse_after_failed_search [OF sp this] show ?thesis .
qed

lemma trailing_slash_path_shape:
  assumes "path \<noteq> []" "hd path = CHR ''/''" "last path = CHR ''/''"
  shows "path = ''/'' \<or> (\<exists>stem seg. path = stem @ ''/'' @ seg @ ''/'' \<and> CHR ''/'' \<notin> set seg)"
proof -
  have "butlast path @ [last path] = path" using assms(1) by (rule append_butlast_last_id)
  then obtain y where py: "path = y @ ''/''" unfolding assms(3) by (rule that [OF sym])
  show ?thesis
  proof (cases y)
    case Nil
    with py show ?thesis by simp
  next
    case (Cons y0 ys)
    with py assms(2) have "y0 = CHR ''/''" by simp
    with Cons have "CHR ''/'' \<in> set y" by simp
    then obtain stem seg where "y = stem @ CHR ''/'' # seg" "CHR ''/'' \<notin> set seg"
      by (auto dest: split_list_last)
    with py show ?thesis by auto
  qed
qed

text \<open>
  C3, amended. Take a URI whose path ends in a slash. The call returns false. If the
  segment \<open>seg\<close> before that slash is not 2 to 4 digits (as the value
  006141411234567890 of the claim's example), the call fails in the search with "No GS1
  DL keys found in path info". If \<open>seg\<close> is a primary key, the search anchors there and
  the call fails in the path loop with "AI (seg) value path element is empty".
\<close>

theorem trailing_slash_fails:
  assumes "dlData = scheme @ host @ path @ tail"
    and "scheme = ''http://'' \<or> scheme = ''https://''"
    and "host \<noteq> []" and "CHR ''/'' \<notin> set host"
    and "path \<noteq> []" and "hd path = CHR ''/''" and "last path = CHR ''/''"
    and "CHR ''?'' \<notin> set path" and "CHR ''#'' \<notin> set path"
    and "tail = [] \<or> hd tail = CHR ''?'' \<or> hd tail = CHR ''#''"
    and "set dlData \<subseteq> set uriCharacters"
  shows "(\<exists>c b. gs1_parseDLuri ctx dlData = Some (False, c, b))
         \<and> (path = stem @ ''/'' @ seg @ ''/'' \<and> CHR ''/'' \<notin> set seg \<and> \<not> valid_ai_form seg \<longrightarrow>
            (\<exists>c b. gs1_parseDLuri ctx dlData = Some (False, c, b)
               \<and> err c = ''No GS1 DL keys found in path info''))
         \<and> (path = stem @ ''/'' @ seg @ ''/'' \<and> seg \<in> set dl_pkeys \<longrightarrow>
            (\<exists>c b. gs1_parseDLuri ctx dlData = Some (False, c, b)
               \<and> err c = ''AI ('' @ seg @ '') value path element is empty''))"
proof (intro conjI impI)
  from trailing_slash_path_shape [OF assms(5-7)]
  show "\<exists>c b. gs1_parseDLuri ctx dlData = Some (False, c, b)"
  proof
    assume p: "path = ''/''"
    have u: "dlData = scheme @ host @ ''/'' @ tail" using assms(1) by (simp add: p)
    from root_path_fails [OF u assms(2-4) assms(10,11), of ctx] show ?thesis by blast
  next
    assume "\<exists>stem seg. path = stem @ ''/'' @ seg @ ''/'' \<and> CHR ''/'' \<notin> set seg"
    then obtain st sg where p: "path = st @ ''/'' @ sg @ ''/''" and sg: "CHR ''/'' \<notin> set sg"
      by blast
    have u: "dlData = scheme @ host @ st @ ''/'' @ sg @ ''/'' @ tail"
      using assms(1) by (simp add: p)
    have s: "st = [] \<or> hd st = CHR ''/''" using assms(6) by (cases st) (auto simp: p)
    have nq: "CHR ''?'' \<notin> set (st @ sg)" and nf: "CHR ''#'' \<notin> set (st @ sg)"
      using assms(8,9) by (simp_all add: p)
    show ?thesis
      by (rule trailing_slash_never_parses [OF u assms(2-4) s sg assms(10) nq nf assms(11)])
  qed
next
  assume h: "path = stem @ ''/'' @ seg @ ''/'' \<and> CHR ''/'' \<notin> set seg \<and> \<not> valid_ai_form seg"
  then have p: "path = stem @ ''/'' @ seg @ ''/''" and sg: "CHR ''/'' \<notin> set seg"
    and bad: "\<not> valid_ai_form seg" by simp_all
  have u: "dlData = scheme @ host @ stem @ ''/'' @ seg @ ''/'' @ [] @ tail"
    using assms(1) by (simp add: p)
  have s: "stem = [] \<or> hd stem = CHR ''/''" using assms(6) by (cases stem) (auto simp: p)
  have nq: "CHR ''?'' \<notin> set (stem @ seg @ [])" and nf: "CHR ''#'' \<notin> set (stem @ seg @ [])"
    using assms(8,9) by (simp_all add: p)
  have e: "CHR ''/'' \<notin> set ([] :: char list)" by simp
  show "\<exists>c b. gs1_parseDLuri ctx dlData = Some (False, c, b)
               \<and> err c = ''No GS1 DL keys found in path info''"
    by (rule invalid_candidate_fails [OF u assms(2-4) s sg e assms(10) nq nf assms(11) bad])
next
  assume h: "path = stem @ ''/'' @ seg @ ''/'' \<and> seg \<in> set dl_pkeys"
  then have p: "path = stem @ ''/'' @ seg @ ''/''" and key: "seg \<in> set dl_pkeys" by simp_all
  have u: "dlData = scheme @ host @ stem @ ''/'' @ seg @ ''/'' @ tail"
    using assms(1) by (simp add: p)
  have s: "stem = [] \<or> hd stem = CHR ''/''" using assms(6) by (cases stem) (auto simp: p)
  have nq: "CHR ''?'' \<notin> set stem" and nf: "CHR ''#'' \<notin> set stem"
    using assms(8,9) by (simp_all add: p)
  show "\<exists>c b. gs1_parseDLuri ctx dlData = Some (False, c, b)
               \<and> err c = ''AI ('' @ seg @ '') value path element is empty''"
    by (rule empty_anchor_value_fails [OF u assms(2-4) s assms(10) nq nf assms(11) key])
qed

theorem trailing_slash_fails_witness:
  "(\<exists>c b. gs1_parseDLuri
       zeroed_context ''https://a/01/12312312312333/99/?10=x'' = Some (False, c, b))
   \<and> (\<exists>c b. gs1_parseDLuri
       zeroed_context ''https://a/stem/00/006141411234567890/'' = Some (False, c, b)
     \<and> err c = ''No GS1 DL keys found in path info'')
   \<and> (\<exists>c b. gs1_parseDLuri
       zeroed_context ''https://a/stem/00/'' = Some (False, c, b)
     \<and> err c = ''AI (00) value path element is empty'')"
proof -
  have 1: "''https://a/01/12312312312333/99/?10=x''
            = ''https://'' @ ''a'' @ ''/01/12312312312333/99/'' @ ''?10=x''" by simp
  have 2: "set ''https://a/01/12312312312333/99/?10=x'' \<subseteq> set uriCharacters"
    by (simp add: uriCharacters_def)
  have 3: "''https://a/stem/00/006141411234567890/''
            = ''https://'' @ ''a'' @ ''/stem/00/006141411234567890/'' @ []" by simp
  have 4: "set ''https://a/stem/00/006141411234567890/'' \<subseteq> set uriCharacters"
    by (simp add: uriCharacters_def)
  have 5: "\<not> valid_ai_form ''006141411234567890''" by (simp add: valid_ai_form_def)
  have 6: "''https://a/stem/00/'' = ''https://'' @ ''a'' @ ''/stem/00/'' @ []" by simp
  have 7: "set ''https://a/stem/00/'' \<subseteq> set uriCharacters"
    by (simp add: uriCharacters_def)
  have 8: "''00'' \<in> set dl_pkeys" by (simp add: dl_pkeys_def)
  have a: "\<exists>c b. gs1_parseDLuri
       zeroed_context ''https://a/01/12312312312333/99/?10=x'' = Some (False, c, b)"
    using trailing_slash_fails [OF 1 _ _ _ _ _ _ _ _ _ 2, THEN conjunct1] by simp
  have b: "\<exists>c b. gs1_parseDLuri
       zeroed_context ''https://a/stem/00/006141411234567890/'' = Some (False, c, b)
     \<and> err c = ''No GS1 DL keys found in path info''"
    using trailing_slash_fails [OF 3 _ _ _ _ _ _ _ _ _ 4, THEN conjunct2, THEN conjunct1,
        of "''/stem/00''" "''006141411234567890''"] 5 by simp
  have c: "\<exists>c b. gs1_parseDLuri
       zeroed_context ''https://a/stem/00/'' = Some (False, c, b)
     \<and> err c = ''AI (00) value path element is empty''"
    using trailing_slash_fails [OF 6 _ _ _ _ _ _ _ _ _ 7, THEN conjunct2, THEN conjunct2,
        of "''/stem''" "''00''"] 8 by simp
  from a b c show ?thesis by blast
qed

section \<open>The first candidate that is no AI\<close>

text \<open>
  The pairs the search passes over: the AI has a valid form and is no primary key.
\<close>

definition passed_over :: "(char list \<times> char list) list \<Rightarrow> bool" where
  "passed_over ps = list_all (\<lambda>(a, v). valid_ai_form a \<and> a \<notin> set dl_pkeys) ps"

lemma pairs_text_append: "pairs_text (ps @ qs) = pairs_text ps @ pairs_text qs"
  by (simp add: pairs_text_def)

lemma scan_back_over_pairs:
  assumes rest: "rest = [] \<or> hd rest = NUL"
  shows "passed_over ps \<Longrightarrow> pairs_ok ps \<Longrightarrow> NUL \<notin> set (stem @ pairs_text ps @ t) \<Longrightarrow>
         buf0 = pre @ stem @ pairs_text ps @ CHR ''/'' # t @ rest \<Longrightarrow>
         scan_back (buf0[length pre + length (stem @ pairs_text ps) := NUL]) (length pre)
             (length pre + length (stem @ pairs_text ps))
         = scan_back (buf0[length pre + length stem := NUL]) (length pre)
             (length pre + length stem)"
proof (induction ps arbitrary: t rule: rev_induct)
  case Nil
  show ?case by (simp add: pairs_text_def)
next
  case (snoc av ps)
  obtain a v where av: "av = (a, v)" by (cases av)
  from snoc.prems(1) have po: "passed_over ps" "valid_ai_form a" "a \<notin> set dl_pkeys"
    by (simp_all add: passed_over_def av)
  from snoc.prems(2) have ok: "pairs_ok ps" "CHR ''/'' \<notin> set a" "CHR ''/'' \<notin> set v"
    by (simp_all add: pairs_ok_def av)
  define stem' where "stem' = stem @ pairs_text ps"
  have pt: "pairs_text (ps @ [av]) = pairs_text ps @ CHR ''/'' # a @ CHR ''/'' # v"
    by (simp add: av pairs_text_snoc)
  have nn: "NUL \<notin> set (stem' @ a @ v @ t)" using snoc.prems(3) by (simp add: pt stem'_def)
  have b: "buf0 = pre @ stem' @ CHR ''/'' # a @ CHR ''/'' # v @ CHR ''/'' # t @ rest"
    using snoc.prems(4) by (simp add: pt stem'_def)
  have q: "length pre + length (stem @ pairs_text (ps @ [av]))
             = length pre + length stem' + length a + length v + 2"
    by (simp add: pt stem'_def)
  have "scan_back (buf0[length pre + length (stem @ pairs_text (ps @ [av])) := NUL]) (length pre)
             (length pre + length (stem @ pairs_text (ps @ [av])))
        = scan_back (buf0[length pre + length stem' := NUL]) (length pre)
             (length pre + length stem')"
    unfolding q using scan_back_iter [OF nn rest ok(2,3) b refl] po(2,3) by simp
  also have "\<dots> = scan_back (buf0[length pre + length stem := NUL]) (length pre)
             (length pre + length stem)"
  proof -
    have n2: "NUL \<notin> set (stem @ pairs_text ps @ (a @ CHR ''/'' # v @ CHR ''/'' # t))"
      using nn by (simp add: stem'_def)
    have b2: "buf0 = pre @ stem @ pairs_text ps @ CHR ''/'' # (a @ CHR ''/'' # v @ CHR ''/'' # t) @ rest"
      by (simp add: b stem'_def)
    show ?thesis unfolding stem'_def by (rule snoc.IH [OF po(1) ok(1) n2 b2])
  qed
  finally show ?case .
qed

lemma scan_back_stops:
  assumes nn: "NUL \<notin> set (stem @ seg @ v @ pairs_text ps)" and rest: "rest = [] \<or> hd rest = NUL"
    and sl: "CHR ''/'' \<notin> set seg" "CHR ''/'' \<notin> set v"
    and st: "stem = [] \<or> hd stem = CHR ''/''"
    and ps: "passed_over ps" "pairs_ok ps"
    and bad: "\<not> valid_ai_form seg"
    and buf: "buf = pre @ stem @ CHR ''/'' # seg @ CHR ''/'' # v @ pairs_text ps @ rest"
  shows "scan_back buf (length pre) (length pre) = (buf, None)"
proof (cases ps rule: rev_cases)
  case Nil
  have n0: "NUL \<notin> set (stem @ seg @ v)" using nn by simp
  have b: "buf = pre @ stem @ CHR ''/'' # seg @ CHR ''/'' # v @ rest"
    by (simp add: buf Nil pairs_text_def)
  from scan_back_first [OF n0 rest sl st b] bad show ?thesis by simp
next
  case (snoc ps' aw)
  obtain a w where aw: "aw = (a, w)" by (cases aw)
  from ps(1) have po: "passed_over ps'" "valid_ai_form a" "a \<notin> set dl_pkeys"
    by (simp_all add: passed_over_def snoc aw)
  from ps(2) have ok: "pairs_ok ps'" "CHR ''/'' \<notin> set a" "CHR ''/'' \<notin> set w"
    by (simp_all add: pairs_ok_def snoc aw)
  define stem1 where "stem1 = stem @ CHR ''/'' # seg @ CHR ''/'' # v"
  define stem0 where "stem0 = stem1 @ pairs_text ps'"
  have pt: "pairs_text ps = pairs_text ps' @ CHR ''/'' # a @ CHR ''/'' # w"
    by (simp add: snoc aw pairs_text_snoc)
  have s0: "stem0 = [] \<or> hd stem0 = CHR ''/''"
    using st by (cases stem) (auto simp: stem0_def stem1_def)
  have n0: "NUL \<notin> set (stem0 @ a @ w)" using nn by (simp add: pt stem0_def stem1_def)
  have b: "buf = pre @ stem0 @ CHR ''/'' # a @ CHR ''/'' # w @ rest"
    by (simp add: buf pt stem0_def stem1_def)
  from scan_back_first [OF n0 rest ok(2,3) s0 b] po(2,3)
  have 1: "scan_back buf (length pre) (length pre)
      = scan_back (buf[length pre + length stem0 := NUL]) (length pre) (length pre + length stem0)"
    by simp
  have n1: "NUL \<notin> set (stem1 @ pairs_text ps' @ (a @ CHR ''/'' # w))"
    using n0 by (simp add: stem0_def)
  have b1: "buf = pre @ stem1 @ pairs_text ps' @ CHR ''/'' # (a @ CHR ''/'' # w) @ rest"
    by (simp add: b stem0_def)
  have 2: "scan_back (buf[length pre + length stem0 := NUL]) (length pre) (length pre + length stem0)
      = scan_back (buf[length pre + length stem1 := NUL]) (length pre) (length pre + length stem1)"
    unfolding stem0_def by (rule scan_back_over_pairs [OF rest po(1) ok(1) n1 b1])
  obtain t where t: "pairs_text ps = CHR ''/'' # t"
    by (simp add: pt) (cases ps', auto simp: pairs_text_def)
  have n2: "NUL \<notin> set (stem @ seg @ v @ t)" using nn by (simp add: t)
  have b2: "buf = pre @ stem @ CHR ''/'' # seg @ CHR ''/'' # v @ CHR ''/'' # t @ rest"
    by (simp add: buf t)
  have q: "length pre + length stem1 = length pre + length stem + length seg + length v + 2"
    by (simp add: stem1_def)
  have 3: "scan_back (buf[length pre + length stem1 := NUL]) (length pre) (length pre + length stem1)
      = (buf, None)"
    unfolding q using scan_back_iter [OF n2 rest sl b2 refl] bad by simp
  from 1 2 3 show ?thesis by simp
qed

lemma first_invalid_candidate_fails:
  assumes uri: "dlData = scheme @ host @ stem @ ''/'' @ seg @ ''/'' @ v @ pairs_text ps @ tail"
    and sch: "scheme = ''http://'' \<or> scheme = ''https://''"
    and host: "host \<noteq> []" "CHR ''/'' \<notin> set host"
    and stem: "stem = [] \<or> hd stem = CHR ''/''"
    and seg: "CHR ''/'' \<notin> set seg"
    and v: "CHR ''/'' \<notin> set v"
    and ps: "passed_over ps" "pairs_ok ps"
    and tail: "tail = [] \<or> hd tail = CHR ''?'' \<or> hd tail = CHR ''#''"
    and nq: "CHR ''?'' \<notin> set (stem @ seg @ v @ pairs_text ps)"
    and nf: "CHR ''#'' \<notin> set (stem @ seg @ v @ pairs_text ps)"
    and legal: "set dlData \<subseteq> set uriCharacters"
    and bad: "\<not> valid_ai_form seg"
  shows "\<exists>c b. gs1_parseDLuri ctx dlData = Some (False, c, b)
           \<and> err c = ''No GS1 DL keys found in path info''"
proof -
  define path where "path = stem @ CHR ''/'' # seg @ CHR ''/'' # v @ pairs_text ps"
  have u: "dlData = scheme @ host @ path @ tail" by (simp add: uri path_def)
  have p1: "path \<noteq> []" by (simp add: path_def)
  have p2: "hd path = CHR ''/''" using stem by (cases stem) (auto simp: path_def)
  have p3: "CHR ''?'' \<notin> set path" using nq by (simp add: path_def)
  have p4: "CHR ''#'' \<notin> set path" using nf by (simp add: path_def)
  from split_uri_shape [OF u sch host p1 p2 p3 p4 tail legal]
  obtain rest qp fr where sp: "split_uri dlData
            = Inr (length (scheme @ host), (scheme @ host) @ path @ rest, qp, fr)"
    and rest: "rest = [] \<or> hd rest = NUL" by blast
  from legal NUL_not_uriCharacter have "NUL \<notin> set dlData" by auto
  then have nn: "NUL \<notin> set (stem @ seg @ v @ pairs_text ps)" by (simp add: uri)
  have b: "(scheme @ host) @ path @ rest
             = (scheme @ host) @ stem @ CHR ''/'' # seg @ CHR ''/'' # v @ pairs_text ps @ rest"
    by (simp add: path_def)
  have "scan_back ((scheme @ host) @ path @ rest) (length (scheme @ host)) (length (scheme @ host))
          = ((scheme @ host) @ path @ rest, None)"
    by (rule scan_back_stops [OF nn rest seg v stem ps bad b])
  from parse_after_failed_search [OF sp this] show ?thesis .
qed

text \<open>
  C7. Take a URI with a legal scheme, a host, and a path made of any stem, the pair
  \<open>seg\<close> and \<open>v\<close>, and then the pairs \<open>ps\<close>, whose AIs are 2 to 4 digits but no primary
  keys: the candidates the search meets, from the right, before \<open>seg\<close>. If \<open>seg\<close> is not 2
  to 4 digits, the search stops at it, whatever primary keys the stem holds: the call
  returns false with the message "No GS1 DL keys found in path info". With no pairs
  \<open>ps\<close>, \<open>seg\<close> and \<open>v\<close> are the rightmost candidate pair.
\<close>

theorem search_stops_at_invalid_candidate:
  assumes "dlData = scheme @ host @ stem @ ''/'' @ seg @ ''/'' @ v @ pairs_text ps @ tail"
    and "scheme = ''http://'' \<or> scheme = ''https://''"
    and "host \<noteq> []" and "CHR ''/'' \<notin> set host"
    and "stem = [] \<or> hd stem = CHR ''/''"
    and "CHR ''/'' \<notin> set seg"
    and "CHR ''/'' \<notin> set v"
    and "passed_over ps" and "pairs_ok ps"
    and "tail = [] \<or> hd tail = CHR ''?'' \<or> hd tail = CHR ''#''"
    and "CHR ''?'' \<notin> set (stem @ seg @ v @ pairs_text ps)"
    and "CHR ''#'' \<notin> set (stem @ seg @ v @ pairs_text ps)"
    and "set dlData \<subseteq> set uriCharacters"
    and "\<not> valid_ai_form seg"
  shows "\<exists>c b. gs1_parseDLuri ctx dlData = Some (False, c, b)
           \<and> err c = ''No GS1 DL keys found in path info''"
  using assms by (rule first_invalid_candidate_fails)

theorem search_stops_at_invalid_candidate_witness:
  "(\<exists>c b. gs1_parseDLuri
       zeroed_context ''https://a/01/12312312312333/9/abc?10=x'' = Some (False, c, b)
     \<and> err c = ''No GS1 DL keys found in path info'')
   \<and> (\<exists>c b. gs1_parseDLuri
       zeroed_context ''https://a/01/12312312312333/9/abc/99/x/98/y'' = Some (False, c, b)
     \<and> err c = ''No GS1 DL keys found in path info'')"
proof -
  have 1: "''https://a/01/12312312312333/9/abc?10=x''
            = ''https://'' @ ''a'' @ ''/01/12312312312333'' @ ''/'' @ ''9'' @ ''/'' @ ''abc''
              @ pairs_text [] @ ''?10=x''"
    by (simp add: pairs_text_def)
  have 2: "set ''https://a/01/12312312312333/9/abc?10=x'' \<subseteq> set uriCharacters"
    by (simp add: uriCharacters_def)
  have 3: "\<not> valid_ai_form ''9''" by (simp add: valid_ai_form_def)
  have 4: "''https://a/01/12312312312333/9/abc/99/x/98/y''
            = ''https://'' @ ''a'' @ ''/01/12312312312333'' @ ''/'' @ ''9'' @ ''/'' @ ''abc''
              @ pairs_text [(''99'', ''x''), (''98'', ''y'')] @ []"
    by (simp add: pairs_text_def)
  have 5: "set ''https://a/01/12312312312333/9/abc/99/x/98/y'' \<subseteq> set uriCharacters"
    by (simp add: uriCharacters_def)
  have 6: "passed_over [(''99'', ''x''), (''98'', ''y'')]"
    by (simp add: passed_over_def valid_ai_form_def isdigit_def dl_pkeys_def)
  have 7: "pairs_ok [(''99'', ''x''), (''98'', ''y'')]" by (simp add: pairs_ok_def)
  have 8: "passed_over []" "pairs_ok []" by (simp_all add: passed_over_def pairs_ok_def)
  have a: "\<exists>c b. gs1_parseDLuri
       zeroed_context ''https://a/01/12312312312333/9/abc?10=x'' = Some (False, c, b)
     \<and> err c = ''No GS1 DL keys found in path info''"
    by (rule search_stops_at_invalid_candidate [OF 1 _ _ _ _ _ _ 8 _ _ _ 2 3])
       (simp_all add: pairs_text_def)
  have b: "\<exists>c b. gs1_parseDLuri
       zeroed_context ''https://a/01/12312312312333/9/abc/99/x/98/y'' = Some (False, c, b)
     \<and> err c = ''No GS1 DL keys found in path info''"
    by (rule search_stops_at_invalid_candidate [OF 4 _ _ _ _ _ _ 6 7 _ _ _ 5 3])
       (simp_all add: pairs_text_def)
  from a b show ?thesis by blast
qed


section \<open>Capacity of the AI buffer\<close>

text \<open>
  One iteration of each loop on a pair whose value has no escape: the element is appended
  to \<open>aiBuf\<close> as it stands. \<open>s\<close> is the string in \<open>aiBuf\<close> before the iteration.
\<close>

lemma percent_decode_plain:
  "CHR ''%'' \<notin> set w \<Longrightarrow> CHR ''+'' \<notin> set w \<Longrightarrow> percent_decode q w = w"
  by (induction q w rule: percent_decode.induct) auto

lemma bytes_at_in_buffer: "bytes_at (pre @ w @ ys) (length pre) (length w) = w"
proof -
  have "map (\<lambda>k. peek (pre @ w @ ys) (length pre + k)) [0..<length w] = map (\<lambda>k. w ! k) [0..<length w]"
    by (simp add: peek_def nth_append)
  then show ?thesis by (simp add: bytes_at_def map_nth)
qed

text \<open>What \<open>store_element\<close> does when nothing is padded and everything fits.\<close>

lemma store_element_plain:
  assumes buf: "buf = pre @ a @ ys"
    and a: "NUL \<notin> set a" "length a \<noteq> 2"
    and w: "map aival [0..<vlen] = w" "NUL \<notin> set w" "vlen \<le> GS1_DL_MAX_AI_LEN"
    and ctx: "aiBuf ctx = s @ [NUL]" "NUL \<notin> set s"
    and fits: "length s + length a + vlen \<le> GS1_DL_MAX_AI_BUF"
    and n: "numAIs ctx < GS1_DL_MAX_AIS"
  shows "\<exists>ctx'. store_element ctx buf (length pre) (length a) aival vlen = Continue aival ctx'
           \<and> aiBuf ctx' = (s @ a @ w) @ [NUL] \<and> numAIs ctx' = numAIs ctx + 1
           \<and> err ctx' = err ctx"
proof -
  have g: "gtin_special buf (length pre) (length a) aival vlen = (aival, vlen)"
    using a(2) by (simp add: gtin_special_def)
  have c0: "cstr (aiBuf ctx) 0 = s"
    using cstr_terminated [OF ctx(2), of "[]"] by (simp add: ctx(1))
  have l0: "strlen (aiBuf ctx) 0 = length s" by (simp add: strlen_def c0)
  have "cstr (drop (length pre) buf) 0 = takeWhile (\<lambda>c. c \<noteq> NUL) (a @ ys)"
    by (simp add: cstr_def buf)
  also have "take (length a) \<dots> = a"
    using a(1) by (simp add: takeWhile_append takeWhile_eq_all_conv [THEN iffD2])
  finally have ta: "take (length a) (cstr (drop (length pre) buf) 0) = a" .
  have b1: "strncat (aiBuf ctx) (drop (length pre) buf) (length a) = (s @ a) @ [NUL]"
    unfolding strncat_def c0 l0 ta by (simp add: ctx(1))
  have c1: "cstr ((s @ a) @ [NUL]) 0 = s @ a"
    using cstr_terminated [of "s @ a" "[]"] ctx(2) a(1) by simp
  have l1: "strlen ((s @ a) @ [NUL]) 0 = length s + length a" unfolding strlen_def c1 by simp
  have le: "vlen \<le> GS1_DL_MAX_AI_LEN + 1" using w(3) by simp
  have "cstr w 0 = w" using w(2) by (rule cstr_whole)
  then have tw: "take vlen (cstr (map aival [0..<vlen]) 0) = w"
    using w(1) by auto
  have b2: "strncat ((s @ a) @ [NUL]) (map aival [0..<GS1_DL_MAX_AI_LEN + 1]) vlen
              = (s @ a @ w) @ [NUL]"
    unfolding strncat_array [OF le] by (simp only: strncat_def c1 l1 tw) simp
  have f1: "\<not> strlen (aiBuf ctx) 0 + length a > GS1_DL_MAX_AI_BUF" using fits l0 by simp
  have f2: "\<not> strlen ((s @ a) @ [NUL]) 0 + vlen > GS1_DL_MAX_AI_BUF" using fits l1 by simp
  define ctx1 where "ctx1 = ctx\<lparr>aiBuf := (s @ a) @ [NUL]\<rparr>"
  have w1: "writeAIbuf ctx (drop (length pre) buf) (length a) = Some ctx1"
    unfolding writeAIbuf_def ctx1_def using f1 by (simp only: if_False b1)
  have ab1: "aiBuf ctx1 = (s @ a) @ [NUL]" by (simp add: ctx1_def)
  define ctx2 where "ctx2 = ctx1\<lparr>aiBuf := (s @ a @ w) @ [NUL]\<rparr>"
  have w2: "writeAIbuf ctx1 (map aival [0..<GS1_DL_MAX_AI_LEN + 1]) vlen = Some ctx2"
    unfolding writeAIbuf_def ctx2_def ab1 using f2 by (simp only: if_False b2)
  have n2: "numAIs ctx2 < GS1_DL_MAX_AIS" using n by (simp add: ctx2_def ctx1_def)
  have "store_element ctx buf (length pre) (length a) aival vlen
          = Continue aival
              (ctx2\<lparr>aiData := (aiData ctx2)(numAIs ctx2 :=
                        \<lparr>ai = strlen (aiBuf ctx) 0, ailen = length a,
                         val = strlen (aiBuf ctx1) 0, vallen = vlen,
                         fnc1 = isFNC1required (aiBuf ctx2) (strlen (aiBuf ctx) 0)\<rparr>),
                    numAIs := numAIs ctx2 + 1\<rparr>)"
    unfolding store_element_def g by (simp only: prod.case w1 option.case w2 n2 if_True)
  then show ?thesis by (simp add: ctx2_def ctx1_def)
qed

lemma digits_plain:
  assumes "list_all isdigit a"
  shows "NUL \<notin> set a" "CHR ''&'' \<notin> set a" "CHR ''='' \<notin> set a" "CHR ''/'' \<notin> set a"
  using assms by (auto simp: list_all_iff isdigit_def)

lemma query_loop_step:
  assumes buf: "buf = pre @ CHR ''&'' # a @ CHR ''='' # w @ tq @ rest"
    and rest: "rest = [] \<or> hd rest = NUL"
    and tq: "tq = [] \<or> hd tq = CHR ''&''" "NUL \<notin> set tq"
    and a: "valid_ai_form a" "length a \<noteq> 2"
    and w: "w \<noteq> []" "NUL \<notin> set w" "CHR ''&'' \<notin> set w" "CHR ''%'' \<notin> set w"
           "CHR ''+'' \<notin> set w" "length w \<le> GS1_DL_MAX_AI_LEN"
    and ctx: "aiBuf ctx = s @ [NUL]" "NUL \<notin> set s"
    and fits: "length s + length a + length w \<le> GS1_DL_MAX_AI_BUF"
    and n: "numAIs ctx < GS1_DL_MAX_AIS"
    and sz: "length buf < 2 ^ 64"
  shows "\<exists>aival' ctx'. query_loop buf (length pre) aival ctx
             = query_loop buf (length pre + 1 + length a + 1 + length w) aival' ctx'
           \<and> aiBuf ctx' = (s @ a @ w) @ [NUL] \<and> numAIs ctx' = numAIs ctx + 1
           \<and> err ctx' = err ctx"
proof -
  define p where "p = length pre"
  define p1 where "p1 = p + 1"
  define e where "e = p1 + length a"
  define r where "r = e + 1 + length w"
  from a(1) have dg: "list_all isdigit a" and al: "2 \<le> length a" "length a \<le> 4"
    by (simp_all add: valid_ai_form_def)
  note ad = digits_plain [OF dg]
  from al obtain a0 a' where a0: "a = a0 # a'" by (cases a) auto
  with ad(2) have a0n: "a0 \<noteq> CHR ''&''" by auto
  have pk: "peek buf p \<noteq> NUL" by (simp add: buf p_def peek_def nth_append)
  have sk: "skip_amp buf p = p1"
    by (simp add: skip_amp_def buf p_def p1_def a0 a0n)
  have b1: "buf = (pre @ ''&'') @ (a @ CHR ''='' # w @ tq) @ rest" by (simp add: buf)
  have p1l: "p1 = length (pre @ ''&'')" by (simp add: p1_def p_def)
  have ns: "NUL \<notin> set (a @ CHR ''='' # w @ tq)" using ad(1) w(2) tq(2) by simp
  have cs: "cstr buf p1 = a @ CHR ''='' # w @ tq"
    unfolding p1l by (subst b1) (rule cstr_in_buffer [OF ns rest])
  have pe: "param_end buf p1 = r"
  proof (cases tq)
    case Nil
    have "CHR ''&'' \<notin> set (a @ CHR ''='' # w)" using ad(2) w(3) by simp
    then have "find_first CHR ''&'' (a @ CHR ''='' # w) = None"
      by (simp only: find_first_None_iff simp_thms)
    then show ?thesis
      by (simp add: param_end_def strchr_def strlen_def cs Nil r_def e_def)
  next
    case (Cons t0 t)
    with tq(1) have t0: "t0 = CHR ''&''" by simp
    have "CHR ''&'' \<notin> set (a @ CHR ''='' # w)" using ad(2) w(3) by simp
    from find_first_here [OF this, of t]
    have "find_first CHR ''&'' (a @ CHR ''='' # w @ tq) = Some (length (a @ CHR ''='' # w))"
      by (simp add: Cons t0)
    then show ?thesis
      by (simp add: param_end_def strchr_def cs r_def e_def)
  qed
  have "take (r - p1) (drop p1 buf) = a @ CHR ''='' # w"
    unfolding p1l by (subst b1) (simp add: r_def e_def p1_def p_def)
  moreover have "find_first CHR ''='' (a @ CHR ''='' # w) = Some (length a)"
    by (rule find_first_here [OF ad(3)])
  ultimately have mc: "memchr buf p1 CHR ''='' (r - p1) = Some e"
    by (simp add: memchr_def e_def)
  have b2: "buf = (pre @ ''&'') @ a @ (CHR ''='' # w @ tq @ rest)" by (simp add: buf)
  have el: "e - p1 = length a" by (simp add: e_def)
  have dgs: "allDigits buf p1 (length a)"
    unfolding p1l by (subst b2) (simp only: allDigits_in_buffer dg)
  have rng: "\<not> (length a < 2 \<or> length a > 4)" using al by simp
  have ne: "r \<noteq> e + 1" using w(1) by (simp add: r_def)
  have il: "r - (e + 1) = length w" by (simp add: r_def)
  define U where "U = URIunescape aival GS1_DL_MAX_AI_LEN buf (e + 1) (length w) True"
  have b3: "buf = (pre @ CHR ''&'' # a @ ''='') @ w @ (tq @ rest)" by (simp add: buf)
  have e1l: "e + 1 = length (pre @ CHR ''&'' # a @ ''='')" by (simp add: e_def p1_def p_def)
  have bts: "bytes_at buf (e + 1) (length w) = w"
    unfolding e1l by (subst b3) (rule bytes_at_in_buffer)
  have wl: "length w < 2 ^ 64" using sz by (simp add: buf)
  have dl: "length w = 1 \<longrightarrow> \<not> isxdigit (peek buf (e + 1 + 1))"
  proof
    assume "length w = 1"
    then have "e + 1 + 1 = param_end buf p1" by (simp add: pe r_def)
    with param_end_delimiter [of buf p1] show "\<not> isxdigit (peek buf (e + 1 + 1))"
      by (auto simp: delimiters_not_xdigit)
  qed
  have dec: "map (fst U) [0..<snd U] = w"
    unfolding U_def URIunescape_decodes [OF wl dl] bts
    using w(6) by (simp add: percent_decode_plain [OF w(4,5)])
  then have "length (map (fst U) [0..<snd U]) = length w" by simp
  then have sl: "snd U = length w" by simp
  with w(1) have v0: "snd U \<noteq> 0" by simp
  have nw: "NUL \<notin> set w" by (rule w(2))
  from store_element_plain [OF b2 ad(1) a(2) dec [unfolded sl] nw w(6) ctx _ n] fits
  obtain ctx' where st: "store_element ctx buf (length (pre @ ''&'')) (length a) (fst U) (length w)
        = Continue (fst U) ctx'"
    and r': "aiBuf ctx' = (s @ a @ w) @ [NUL]" "numAIs ctx' = numAIs ctx + 1" "err ctx' = err ctx"
    by (auto simp: sl)
  have Ueq: "URIunescape aival GS1_DL_MAX_AI_LEN buf (e + 1) (length w) True = (fst U, length w)"
    using sl by (simp add: U_def prod_eq_iff)
  have "query_loop buf p aival ctx = query_loop buf r (fst U) ctx'"
    by (subst query_loop.simps)
       (simp only: pk sk pe mc el dgs rng ne il Ueq v0 [unfolded sl] st [folded p1l]
          if_False if_True option.case prod.case flow.case simp_thms)
  with r' show ?thesis
    unfolding p_def r_def e_def p1_def p_def by blast
qed

lemma peek_at_rest:
  assumes "rest = [] \<or> hd rest = NUL"
  shows "peek (pre @ rest) (length pre) = NUL"
  using assms by (cases rest) (auto simp: peek_def)

lemma query_loop_repeat:
  assumes a: "valid_ai_form a" "length a \<noteq> 2"
    and w: "w \<noteq> []" "NUL \<notin> set w" "CHR ''&'' \<notin> set w" "CHR ''%'' \<notin> set w"
           "CHR ''+'' \<notin> set w" "length w \<le> GS1_DL_MAX_AI_LEN"
    and rest: "rest = [] \<or> hd rest = NUL"
  shows "buf = pre @ concat (replicate n (CHR ''&'' # a @ CHR ''='' # w)) @ rest \<Longrightarrow>
         aiBuf ctx = s @ [NUL] \<Longrightarrow> NUL \<notin> set s \<Longrightarrow>
         length s + n * (length a + length w) \<le> GS1_DL_MAX_AI_BUF \<Longrightarrow>
         numAIs ctx + n \<le> GS1_DL_MAX_AIS \<Longrightarrow> length buf < 2 ^ 64 \<Longrightarrow>
         \<exists>aival' ctx' s'. query_loop buf (length pre) aival ctx = Continue aival' ctx'
           \<and> aiBuf ctx' = s' @ [NUL] \<and> NUL \<notin> set s'
           \<and> length s' = length s + n * (length a + length w)
           \<and> numAIs ctx' = numAIs ctx + n \<and> err ctx' = err ctx"
proof (induction n arbitrary: pre ctx s aival)
  case 0
  then have b: "buf = pre @ rest" by simp
  have pk: "peek buf (length pre) = NUL" unfolding b by (rule peek_at_rest [OF rest])
  have "query_loop buf (length pre) aival ctx = Continue aival ctx"
    by (subst query_loop.simps) (simp add: pk)
  with 0 show ?case by simp
next
  case (Suc n)
  define tq where "tq = concat (replicate n (CHR ''&'' # a @ CHR ''='' # w))"
  from a(1) have dg: "list_all isdigit a" by (simp add: valid_ai_form_def)
  note ad = digits_plain [OF dg]
  have b: "buf = pre @ CHR ''&'' # a @ CHR ''='' # w @ tq @ rest"
    using Suc.prems(1) by (simp add: tq_def)
  have t1: "tq = [] \<or> hd tq = CHR ''&''" by (cases n) (simp_all add: tq_def)
  have t2: "NUL \<notin> set tq" using ad(1) w(2) by (auto simp: tq_def)
  have fits: "length s + length a + length w \<le> GS1_DL_MAX_AI_BUF" using Suc.prems(4) by simp
  have nn: "numAIs ctx < GS1_DL_MAX_AIS" using Suc.prems(5) by simp
  from query_loop_step [OF b rest t1 t2 a w Suc.prems(2,3) fits nn Suc.prems(6), of aival]
  obtain aival1 ctx1 where
    st: "query_loop buf (length pre) aival ctx
           = query_loop buf (length pre + 1 + length a + 1 + length w) aival1 ctx1"
    and c1: "aiBuf ctx1 = (s @ a @ w) @ [NUL]" "numAIs ctx1 = numAIs ctx + 1" "err ctx1 = err ctx"
    by blast
  define pre1 where "pre1 = pre @ CHR ''&'' # a @ CHR ''='' # w"
  have l1: "length pre + 1 + length a + 1 + length w = length pre1" by (simp add: pre1_def)
  have b1: "buf = pre1 @ concat (replicate n (CHR ''&'' # a @ CHR ''='' # w)) @ rest"
    by (simp add: b pre1_def tq_def)
  have n1: "NUL \<notin> set (s @ a @ w)" using Suc.prems(3) ad(1) w(2) by simp
  have f1: "length (s @ a @ w) + n * (length a + length w) \<le> GS1_DL_MAX_AI_BUF"
    using Suc.prems(4) by simp
  have m1: "numAIs ctx1 + n \<le> GS1_DL_MAX_AIS" using Suc.prems(5) c1(2) by simp
  from Suc.IH [OF b1 c1(1) n1 f1 m1 Suc.prems(6), of aival1]
  obtain aival' ctx' s' where
    "query_loop buf (length pre1) aival1 ctx1 = Continue aival' ctx'"
    "aiBuf ctx' = s' @ [NUL]" "NUL \<notin> set s'"
    "length s' = length (s @ a @ w) + n * (length a + length w)"
    "numAIs ctx' = numAIs ctx1 + n" "err ctx' = err ctx1"
    by blast
  with st c1 show ?case unfolding l1 by simp
qed

lemma path_loop_single:
  assumes buf: "buf = pre @ CHR ''/'' # a @ CHR ''/'' # w @ rest"
    and rest: "rest = [] \<or> hd rest = NUL"
    and a: "valid_ai_form a" "length a \<noteq> 2"
    and w: "w \<noteq> []" "NUL \<notin> set w" "CHR ''/'' \<notin> set w" "CHR ''%'' \<notin> set w"
           "length w \<le> GS1_DL_MAX_AI_LEN"
    and ctx: "aiBuf ctx = s @ [NUL]" "NUL \<notin> set s"
    and fits: "length s + length a + length w \<le> GS1_DL_MAX_AI_BUF"
    and n: "numAIs ctx < GS1_DL_MAX_AIS"
    and sz: "length buf < 2 ^ 64"
  shows "\<exists>aival' ctx'. path_loop buf (length pre) aival ctx = Continue aival' ctx'
           \<and> aiBuf ctx' = (s @ a @ w) @ [NUL] \<and> numAIs ctx' = numAIs ctx + 1
           \<and> err ctx' = err ctx"
proof -
  define p where "p = length pre"
  define r where "r = p + 1 + length a"
  define e where "e = r + 1 + length w"
  from a(1) have dg: "list_all isdigit a" by (simp add: valid_ai_form_def)
  note ad = digits_plain [OF dg]
  have pk: "peek buf p \<noteq> NUL" by (simp add: buf p_def peek_def nth_append)
  have b1: "buf = (pre @ ''/'') @ a @ CHR ''/'' # w @ rest" by (simp add: buf)
  have n1: "NUL \<notin> set (a @ CHR ''/'' # w)" using ad(1) w(2) by simp
  have "strchr buf (length (pre @ ''/'')) CHR ''/'' = Some (length (pre @ ''/'') + length a)"
    by (subst b1) (rule strchr_in_buffer [OF n1 rest ad(4)])
  then have sr: "strchr buf (p + 1) CHR ''/'' = Some r" by (simp add: r_def p_def)
  have b2: "buf = (pre @ CHR ''/'' # a @ ''/'') @ w @ rest" by (simp add: buf)
  have r1: "r + 1 = length (pre @ CHR ''/'' # a @ ''/'')" by (simp add: r_def p_def)
  have sn: "strchr buf (r + 1) CHR ''/'' = None"
    unfolding r1 by (subst b2) (rule strchr_none_in_buffer [OF w(2) rest w(3)])
  have cw: "cstr buf (r + 1) = w"
    unfolding r1 by (subst b2) (rule cstr_in_buffer [OF w(2) rest])
  have ve: "value_end buf (r + 1) = e"
    unfolding value_end_def sn strlen_def cw by (simp add: e_def)
  have ne: "e \<noteq> r + 1" using w(1) by (simp add: e_def)
  have il: "e - (r + 1) = length w" by (simp add: e_def)
  have al: "r - (p + 1) = length a" by (simp add: r_def)
  define U where "U = URIunescape aival GS1_DL_MAX_AI_LEN buf (r + 1) (length w) False"
  have b3: "buf = (pre @ CHR ''/'' # a @ ''/'') @ w @ rest" by (simp add: buf)
  have bts: "bytes_at buf (r + 1) (length w) = w"
    unfolding r1 by (subst b3) (rule bytes_at_in_buffer)
  have wl: "length w < 2 ^ 64" using sz by (simp add: buf)
  have dl: "length w = 1 \<longrightarrow> \<not> isxdigit (peek buf (r + 1 + 1))"
  proof
    assume "length w = 1"
    then have "r + 1 + 1 = value_end buf (r + 1)" unfolding ve by (simp add: e_def)
    with value_end_delimiter [of buf "r + 1"] show "\<not> isxdigit (peek buf (r + 1 + 1))"
      by (auto simp: delimiters_not_xdigit)
  qed
  have pd: "percent_decode False w = w"
    using w(4) by (induction False w rule: percent_decode.induct) auto
  have dec: "map (fst U) [0..<snd U] = w"
    unfolding U_def URIunescape_decodes [OF wl dl] bts
    using w(5) by (simp add: pd)
  then have "length (map (fst U) [0..<snd U]) = length w" by simp
  then have sl: "snd U = length w" by simp
  with w(1) have v0: "length w \<noteq> 0" by simp
  have b4: "buf = (pre @ ''/'') @ a @ (CHR ''/'' # w @ rest)" by (simp add: buf)
  have p1l: "p + 1 = length (pre @ ''/'')" by (simp add: p_def)
  from store_element_plain [OF b4 ad(1) a(2) dec [unfolded sl] w(2) w(5) ctx _ n] fits
  obtain ctx' where st: "store_element ctx buf (length (pre @ ''/'')) (length a) (fst U) (length w)
        = Continue (fst U) ctx'"
    and r': "aiBuf ctx' = (s @ a @ w) @ [NUL]" "numAIs ctx' = numAIs ctx + 1" "err ctx' = err ctx"
    by (auto simp: sl)
  have Ueq: "URIunescape aival GS1_DL_MAX_AI_LEN buf (r + 1) (length w) False = (fst U, length w)"
    using sl by (simp add: U_def prod_eq_iff)
  have b5: "buf = (pre @ CHR ''/'' # a @ CHR ''/'' # w) @ rest" by (simp add: buf)
  have el: "e = length (pre @ CHR ''/'' # a @ CHR ''/'' # w)" by (simp add: e_def r_def p_def)
  have pe: "peek buf e = NUL"
    unfolding el by (subst b5) (rule peek_at_rest [OF rest])
  have last: "path_loop buf e (fst U) ctx' = Continue (fst U) ctx'"
    by (subst path_loop.simps) (simp add: pe)
  have "path_loop buf p aival ctx = path_loop buf e (fst U) ctx'"
    by (subst path_loop.simps)
       (simp only: pk sr ve ne il al Ueq v0 st [folded p1l]
          if_False if_True option.case prod.case flow.case simp_thms)
  with last r' show ?thesis unfolding p_def by simp
qed

lemma split_uri_query:
  assumes uri: "dlData = scheme @ host @ path @ CHR ''?'' # t"
    and sch: "scheme = ''http://'' \<or> scheme = ''https://''"
    and host: "host \<noteq> []" "CHR ''/'' \<notin> set host"
    and path: "path \<noteq> []" "hd path = CHR ''/''" "CHR ''?'' \<notin> set path" "CHR ''#'' \<notin> set path"
    and nofrag: "CHR ''#'' \<notin> set t"
    and legal: "set dlData \<subseteq> set uriCharacters"
  shows "split_uri dlData
           = Inr (length (scheme @ host), (scheme @ host) @ path @ NUL # t,
                  Some (length (scheme @ host) + length path + 1), None)"
proof -
  define pre where "pre = scheme @ host"
  from legal NUL_not_uriCharacter have n0: "NUL \<notin> set dlData" by auto
  then have nparts: "NUL \<notin> set host" "NUL \<notin> set path" "NUL \<notin> set t"
    by (simp_all add: uri)
  have u: "dlData = pre @ path @ CHR ''?'' # t" by (simp add: uri pre_def)
  have c0: "cstr dlData 0 = dlData" using n0 by (rule cstr_whole)
  have "takeWhile (\<lambda>c. c \<in> set uriCharacters) dlData = dlData"
    by (rule takeWhile_eq_all_conv [THEN iffD2]) (use legal in auto)
  then have span: "strspn dlData 0 uriCharacters = strlen dlData 0"
    by (simp only: strspn_def strlen_def c0)
  have nrest: "NUL \<notin> set (host @ path @ CHR ''?'' # t)" using nparts by simp
  have sk: "skip_scheme dlData = Some (length scheme)"
    using sch skip_scheme_http [OF nrest] by (auto simp: uri)
  obtain path' where p': "path = CHR ''/'' # path'"
    using path(1,2) by (cases path) auto
  have e0: "[] = [] \<or> hd [] = NUL" by simp
  have sl: "strchr dlData (length scheme) CHR ''/'' = Some (length pre)"
  proof -
    have e: "dlData = scheme @ host @ CHR ''/'' # (path' @ CHR ''?'' # t) @ []"
      by (simp add: uri p')
    have n: "NUL \<notin> set (host @ CHR ''/'' # (path' @ CHR ''?'' # t))"
      using nrest by (simp add: p')
    have "strchr dlData (length scheme) CHR ''/'' = Some (length scheme + length host)"
      by (subst e) (rule strchr_in_buffer [OF n e0 host(2)])
    then show ?thesis by (simp add: pre_def)
  qed
  have dl: "\<not> length pre - length scheme < 1" using host(1) by (simp add: pre_def)
  have u1: "dlData = pre @ (path @ CHR ''?'' # t) @ []" by (simp add: u)
  have n1: "NUL \<notin> set (path @ CHR ''?'' # t)" using nparts(2,3) by simp
  have nh: "CHR ''#'' \<notin> set (path @ CHR ''?'' # t)" using path(4) nofrag by simp
  have h: "strchr dlData (length pre) CHR ''#'' = None"
    by (subst u1) (rule strchr_none_in_buffer [OF n1 e0 nh])
  have u2: "dlData = pre @ path @ CHR ''?'' # t @ []" by (simp add: u)
  have q: "strchr dlData (length pre) CHR ''?'' = Some (length pre + length path)"
    by (subst u2) (rule strchr_in_buffer [OF n1 e0 path(3)])
  have c: "dlData[length pre + length path := NUL] = pre @ path @ NUL # t"
    using update_in_buffer [of pre path "CHR ''?''" t NUL] by (simp add: u)
  have "split_uri dlData = Inr (length pre, pre @ path @ NUL # t,
           Some (length pre + length path + 1), None)"
    unfolding split_uri_def
    by (simp only: span sk sl dl option.case if_False simp_thms,
        simp only: h option.case, simp only: q option.case, simp only: c)
  then show ?thesis unfolding pre_def .
qed

lemma strlen_terminated: "NUL \<notin> set s \<Longrightarrow> strlen (s @ [NUL]) 0 = length s"
  using cstr_in_buffer [of s "[NUL]" "[]"] by (simp add: strlen_def)

lemma parse_fills_aiBuf:
  assumes uri: "dlData = scheme @ host @ (CHR ''/'' # k @ CHR ''/'' # v) @ CHR ''?'' #
                  concat (replicate n (CHR ''&'' # a @ CHR ''='' # w))"
    and sch: "scheme = ''http://'' \<or> scheme = ''https://''"
    and host: "host \<noteq> []" "CHR ''/'' \<notin> set host"
    and k: "k \<in> set dl_pkeys" "length k \<noteq> 2"
    and v: "v \<noteq> []" "CHR ''/'' \<notin> set v" "CHR ''%'' \<notin> set v" "CHR ''?'' \<notin> set v"
           "CHR ''#'' \<notin> set v" "length v \<le> GS1_DL_MAX_AI_LEN"
    and a: "valid_ai_form a" "length a \<noteq> 2"
    and w: "w \<noteq> []" "CHR ''&'' \<notin> set w" "CHR ''%'' \<notin> set w" "CHR ''+'' \<notin> set w"
           "CHR ''#'' \<notin> set w" "length w \<le> GS1_DL_MAX_AI_LEN"
    and legal: "set dlData \<subseteq> set uriCharacters"
    and count: "n + 1 \<le> GS1_DL_MAX_AIS"
    and fits: "length k + length v + n * (length a + length w) \<le> GS1_DL_MAX_AI_BUF"
    and sz: "length dlData < 2 ^ 64"
    and start: "aiBuf ctx = [NUL]"
  shows "\<exists>c b. gs1_parseDLuri ctx dlData = Some (True, c, b) \<and> numAIs c = n + 1
           \<and> err c = []
           \<and> strlen (aiBuf c) 0 = length k + length v + n * (length a + length w)
           \<and> length (aiBuf c) = length k + length v + n * (length a + length w) + 1"
proof -
  define path where "path = CHR ''/'' # k @ CHR ''/'' # v"
  define t where "t = concat (replicate n (CHR ''&'' # a @ CHR ''='' # w))"
  define pre where "pre = scheme @ host"
  define buf where "buf = pre @ path @ NUL # t"
  define ctx0 where "ctx0 = ctx\<lparr>numAIs := 0, aiBuf := (aiBuf ctx)[0 := NUL], err := []\<rparr>"
  from k(1) have vk: "valid_ai_form k" by (rule pkey_valid_ai_form)
  from k(1) have sg: "CHR ''/'' \<notin> set k" "CHR ''?'' \<notin> set k" "CHR ''#'' \<notin> set k"
    by (auto simp: dl_pkeys_def)
  from a(1) have dg: "list_all isdigit a" by (simp add: valid_ai_form_def)
  then have ah: "CHR ''#'' \<notin> set a" by (auto simp: list_all_iff isdigit_def)
  from legal NUL_not_uriCharacter have n0: "NUL \<notin> set dlData" by auto
  have u: "dlData = scheme @ host @ path @ CHR ''?'' # t" by (simp add: uri path_def t_def)
  from n0 have nn: "NUL \<notin> set k" "NUL \<notin> set v" "NUL \<notin> set t" by (simp_all add: u path_def)
  have nw: "NUL \<notin> set w \<or> n = 0" using nn(3) by (cases n) (auto simp: t_def)
  have p1: "path \<noteq> []" "hd path = CHR ''/''" by (simp_all add: path_def)
  have p3: "CHR ''?'' \<notin> set path" using sg(2) v(4) by (simp add: path_def)
  have p4: "CHR ''#'' \<notin> set path" using sg(3) v(5) by (simp add: path_def)
  have nf: "CHR ''#'' \<notin> set t" using ah w(5) by (auto simp: t_def)
  have sp: "split_uri dlData = Inr (length pre, buf, Some (length pre + length path + 1), None)"
    unfolding pre_def buf_def by (rule split_uri_query [OF u sch host p1 p3 p4 nf legal])
  have r1: "NUL # t = [] \<or> hd (NUL # t) = NUL" by simp
  have b1: "buf = pre @ [] @ CHR ''/'' # k @ CHR ''/'' # v @ NUL # t"
    by (simp add: buf_def path_def)
  have nkv: "NUL \<notin> set ([] @ k @ v)" using nn by simp
  from scan_back_first [OF nkv r1 sg(1) v(2) _ b1] vk k(1)
  have sb: "scan_back buf (length pre) (length pre) = (buf, Some (length pre))" by simp
  have b2: "buf = pre @ CHR ''/'' # k @ CHR ''/'' # v @ NUL # t"
    by (simp add: buf_def path_def)
  have c0: "aiBuf ctx0 = [] @ [NUL]" "numAIs ctx0 = 0" "err ctx0 = []"
    by (simp_all add: ctx0_def start)
  have f0: "length ([] :: char list) + length k + length v \<le> GS1_DL_MAX_AI_BUF"
    using fits by simp
  have m0: "numAIs ctx0 < GS1_DL_MAX_AIS" by (simp add: c0 GS1_DL_MAX_AIS_def)
  have lb: "length buf = length dlData" by (simp add: buf_def pre_def u)
  have sb2: "length buf < 2 ^ 64" using sz by (simp only: lb)
  from path_loop_single [OF b2 r1 vk k(2) v(1) nn(2) v(2,3,6) c0(1) _ f0 m0 sb2, of aival_start]
  obtain aival1 ctx1 where
    pl: "path_loop buf (length pre) aival_start ctx0 = Continue aival1 ctx1"
    and c1: "aiBuf ctx1 = ([] @ k @ v) @ [NUL]" "numAIs ctx1 = numAIs ctx0 + 1"
            "err ctx1 = err ctx0"
    by auto
  define pre2 where "pre2 = pre @ path @ [NUL]"
  have b3: "buf = pre2 @ concat (replicate n (CHR ''&'' # a @ CHR ''='' # w)) @ []"
    by (simp add: buf_def pre2_def t_def)
  have q: "length pre + length path + 1 = length pre2" by (simp add: pre2_def)
  have e0: "[] = [] \<or> hd [] = NUL" by simp
  have f1: "length ([] @ k @ v) + n * (length a + length w) \<le> GS1_DL_MAX_AI_BUF"
    using fits by simp
  have m1: "numAIs ctx1 + n \<le> GS1_DL_MAX_AIS" using count by (simp add: c1 c0)
  have "\<exists>aival2 ctx2 s'. query_loop buf (length pre2) aival1 ctx1 = Continue aival2 ctx2
           \<and> aiBuf ctx2 = s' @ [NUL] \<and> NUL \<notin> set s'
           \<and> length s' = length ([] @ k @ v) + n * (length a + length w)
           \<and> numAIs ctx2 = numAIs ctx1 + n \<and> err ctx2 = err ctx1"
  proof (cases n)
    case 0
    have pk: "peek buf (length pre2) = NUL"
      using peek_at_rest [OF e0, of pre2] by (simp add: b3 0)
    have "query_loop buf (length pre2) aival1 ctx1 = Continue aival1 ctx1"
      by (subst query_loop.simps) (simp add: pk)
    with c1(1) nkv 0 show ?thesis by simp
  next
    case (Suc m)
    with nw have nw': "NUL \<notin> set w" by simp
    show ?thesis
      by (rule query_loop_repeat [OF a w(1) nw' w(2,3,4,6) e0 b3 c1(1) nkv f1 m1 sb2])
  qed
  then obtain aival2 ctx2 s' where
    ql: "query_loop buf (length pre2) aival1 ctx1 = Continue aival2 ctx2"
    and c2: "aiBuf ctx2 = s' @ [NUL]" "NUL \<notin> set s'"
            "length s' = length ([] @ k @ v) + n * (length a + length w)"
            "numAIs ctx2 = numAIs ctx1 + n" "err ctx2 = err ctx1"
    by blast
  have "gs1_parseDLuri ctx dlData
          = Some (parse_out True ctx2 buf (Some (length pre2)) None)"
    unfolding gs1_parseDLuri_def sp q
    by (simp only: sum.case prod.case sb option.case pl [unfolded ctx0_def] flow.case ql)
  moreover have "strlen (aiBuf ctx2) 0 = length s'"
    unfolding c2(1) by (rule strlen_terminated [OF c2(2)])
  ultimately show ?thesis
    using c2 c1 c0 by (simp add: parse_out_def)
qed

text \<open>
  C2. The test of \<open>writeAIbuf\<close> lets an append through when the string then has
  exactly \<open>GS1_DL_MAX_AI_BUF\<close> characters, and \<open>strncat\<close> writes the terminating NUL
  after them. A URI with a primary key (8003) and 63 query parameters (9999), all with
  four-digit codes and values of 90 characters, fills the array \<open>aiBuf\<close> to that length:
  the call returns true with 64 elements and no message, the string in \<open>aiBuf\<close> is
  \<open>GS1_DL_MAX_AI_BUF\<close> characters long, and its terminator has been written at index
  \<open>GS1_DL_MAX_AI_BUF\<close>, one past the last byte of \<open>char aiBuf[GS1_DL_MAX_AI_BUF]\<close>.
\<close>

theorem aiBuf_terminator_written_past_capacity:
  "\<exists>c b. gs1_parseDLuri zeroed_context
       (''https://a/8003/'' @ replicate 90 CHR ''A'' @ ''?''
          @ concat (replicate 63 (''&9999='' @ replicate 90 CHR ''A''))) = Some (True, c, b)
     \<and> numAIs c = GS1_DL_MAX_AIS \<and> err c = []
     \<and> strlen (aiBuf c) 0 = GS1_DL_MAX_AI_BUF
     \<and> length (aiBuf c) = GS1_DL_MAX_AI_BUF + 1"
proof -
  define V where "V = replicate 90 CHR ''A''"
  have V: "length V = 90" "set V = {CHR ''A''}" "V \<noteq> []" by (auto simp: V_def)
  define U where "U = ''https://a/8003/'' @ V @ ''?'' @ concat (replicate 63 (''&9999='' @ V))"
  have 1: "U = ''https://'' @ ''a'' @ (CHR ''/'' # ''8003'' @ CHR ''/'' # V) @ CHR ''?'' #
                  concat (replicate 63 (CHR ''&'' # ''9999'' @ CHR ''='' # V))"
    by (simp add: U_def)
  have 2: "set U \<subseteq> set uriCharacters"
    by (simp add: U_def V uriCharacters_def)
  have 3: "''8003'' \<in> set dl_pkeys" by (simp add: dl_pkeys_def)
  have 4: "valid_ai_form ''9999''" by (simp add: valid_ai_form_def isdigit_def)
  have 5: "length U < 2 ^ 64"
    by (simp add: U_def V length_concat sum_list_replicate)
  have 6: "length V \<le> GS1_DL_MAX_AI_LEN" by (simp add: V GS1_DL_MAX_AI_LEN_def)
  have 7: "63 + 1 \<le> GS1_DL_MAX_AIS" by (simp add: GS1_DL_MAX_AIS_def)
  have 8: "length ''8003'' + length V + 63 * (length ''9999'' + length V) \<le> GS1_DL_MAX_AI_BUF"
    by (simp add: V GS1_DL_MAX_AI_BUF_def GS1_DL_MAX_AIS_def GS1_DL_MAX_AI_LEN_def)
  have 9: "aiBuf zeroed_context = [NUL]" by (simp add: zeroed_context_def)
  from parse_fills_aiBuf [OF 1 _ _ _ 3 _ V(3) _ _ _ _ 6 4 _ V(3) _ _ _ _ 6 2 7 8 5 9]
  have "\<exists>c b. gs1_parseDLuri zeroed_context U = Some (True, c, b) \<and> numAIs c = 63 + 1
           \<and> err c = []
           \<and> strlen (aiBuf c) 0 = length ''8003'' + length V + 63 * (length ''9999'' + length V)
           \<and> length (aiBuf c) = length ''8003'' + length V + 63 * (length ''9999'' + length V) + 1"
    by (simp add: V)
  then show ?thesis
    unfolding U_def V_def
    by (simp add: GS1_DL_MAX_AI_BUF_def GS1_DL_MAX_AIS_def GS1_DL_MAX_AI_LEN_def)
qed

section \<open>The parser returns on every string\<close>

text \<open>
  The only statement of \<open>gs1_parseDLuri\<close> that can dereference \<open>NULL\<close> is the \<open>*r\<close> of the
  path loop after \<open>strchr(++p, '/')\<close>. The search leaves \<open>dp\<close> at the start of a pair, so
  what the path loop reads from \<open>dp\<close> on is a list of pairs \<open>/AI/value\<close> and the slash is
  always found.
\<close>

lemma find_first_SomeD:
  "find_first c s = Some k \<Longrightarrow> s = take k s @ c # drop (Suc k) s \<and> c \<notin> set (take k s)"
  by (induction s arbitrary: k) (auto split: if_splits)

lemma takeWhile_full: "length (takeWhile P xs) = length xs \<Longrightarrow> \<forall>x\<in>set xs. P x"
  by (induction xs) (auto split: if_splits)

lemma cstr_nul_free: "NUL \<notin> set s \<Longrightarrow> cstr s p = drop p s"
  unfolding cstr_def by (rule takeWhile_eq_all_conv [THEN iffD2]) (auto dest: in_set_dropD)

lemma skip_scheme_SomeD:
  assumes "skip_scheme s = Some p" and "NUL \<notin> set s"
  shows "(take p s = ''http://'' \<or> take p s = ''https://'') \<and> length (take p s) = p"
proof -
  have c: "cstr s 0 = s" using assms(2) by (rule cstr_whole)
  from assms(1) consider
      "p = 8" "length s \<ge> 8" "take 8 (s @ [NUL]) = take 8 (''https://'' @ [NUL])"
    | "p = 7" "length s \<ge> 7" "take 7 (s @ [NUL]) = take 7 (''http://'' @ [NUL])"
    unfolding skip_scheme_def strlen_def c strncmp_eq_def by (auto split: if_splits)
  then show ?thesis
  proof cases
    case 1
    then show ?thesis by simp
  next
    case 2
    then show ?thesis by simp
  qed
qed

lemma split_uri_cases:
  assumes nn: "NUL \<notin> set dlData"
  shows "(\<exists>m. split_uri dlData = Inl m)
     \<or> (\<exists>scheme host path tail. dlData = scheme @ host @ path @ tail
          \<and> (scheme = ''http://'' \<or> scheme = ''https://'')
          \<and> host \<noteq> [] \<and> CHR ''/'' \<notin> set host
          \<and> path \<noteq> [] \<and> hd path = CHR ''/'' \<and> CHR ''?'' \<notin> set path \<and> CHR ''#'' \<notin> set path
          \<and> (tail = [] \<or> hd tail = CHR ''?'' \<or> hd tail = CHR ''#'')
          \<and> set dlData \<subseteq> set uriCharacters)"
proof (cases "split_uri dlData")
  case (Inl m)
  then show ?thesis by blast
next
  case (Inr t)
  have a: "strspn dlData 0 uriCharacters = strlen dlData 0"
  proof (rule ccontr)
    assume "\<not> ?thesis"
    then have "split_uri dlData = Inl ''URI contains illegal characters''"
      by (simp add: split_uri_def)
    with Inr show False by simp
  qed
  obtain p where sk: "skip_scheme dlData = Some p"
  proof (cases "skip_scheme dlData")
    case None
    then have "split_uri dlData = Inl ''Scheme must be http:// or https://''"
      by (simp add: split_uri_def a)
    with Inr show ?thesis by simp
  next
    case (Some p)
    then show ?thesis by (rule that)
  qed
  obtain r where sr: "strchr dlData p CHR ''/'' = Some r"
  proof (cases "strchr dlData p CHR ''/''")
    case None
    then have "split_uri dlData = Inl ''URI must contain a domain and path info''"
      by (simp add: split_uri_def a sk)
    with Inr show ?thesis by simp
  next
    case (Some r)
    then show ?thesis by (rule that)
  qed
  have rp: "\<not> r - p < 1"
  proof
    assume "r - p < 1"
    then have "split_uri dlData = Inl ''URI must contain a domain and path info''"
      by (simp add: split_uri_def a sk sr)
    with Inr show False by simp
  qed
  have c0: "cstr dlData 0 = dlData" using nn by (rule cstr_whole)
  from a have "length (takeWhile (\<lambda>c. c \<in> set uriCharacters) dlData) = length dlData"
    by (simp add: strspn_def strlen_def c0)
  from takeWhile_full [OF this] have legal: "set dlData \<subseteq> set uriCharacters" by auto
  define scheme where "scheme = take p dlData"
  define d where "d = drop p dlData"
  from skip_scheme_SomeD [OF sk nn]
  have sch: "scheme = ''http://'' \<or> scheme = ''https://''" and sl: "length scheme = p"
    by (simp_all add: scheme_def)
  have u1: "dlData = scheme @ d" by (simp add: scheme_def d_def)
  from sr obtain k where k: "find_first CHR ''/'' d = Some k" and r: "r = p + k"
    by (auto simp: strchr_def cstr_nul_free [OF nn] d_def)
  from rp r have k1: "1 \<le> k" by simp
  define host where "host = take k d"
  define R where "R = CHR ''/'' # drop (Suc k) d"
  from find_first_SomeD [OF k] have u2: "d = host @ R" and hs: "CHR ''/'' \<notin> set host"
    by (simp_all add: host_def R_def)
  from find_first_less [OF k] k1 have hn: "host \<noteq> []" by (auto simp: host_def)
  define P where "P = (\<lambda>c. c \<noteq> CHR ''?'' \<and> c \<noteq> CHR ''#'')"
  define path where "path = takeWhile P R"
  define tail where "tail = dropWhile P R"
  have u3: "R = path @ tail" by (simp add: path_def tail_def)
  have p0: "path = CHR ''/'' # takeWhile P (drop (Suc k) d)" by (simp add: path_def R_def P_def)
  then have p1: "path \<noteq> []" "hd path = CHR ''/''" by simp_all
  have pP: "\<forall>c\<in>set path. P c" unfolding path_def by (auto dest: set_takeWhileD)
  then have p3: "CHR ''?'' \<notin> set path" "CHR ''#'' \<notin> set path" by (auto simp: P_def)
  have tl: "tail = [] \<or> hd tail = CHR ''?'' \<or> hd tail = CHR ''#''"
  proof (cases "tail = []")
    case False
    then have "\<not> P (hd tail)" unfolding tail_def by (rule hd_dropWhile)
    then show ?thesis by (auto simp: P_def)
  qed simp
  have "dlData = scheme @ host @ path @ tail" by (simp add: u1 u2 u3)
  with sch hn hs p1 p3 tl legal show ?thesis by blast
qed

lemma scan_back_single_slash:
  assumes buf: "buf = pre @ CHR ''/'' # v @ rest"
    and rest: "rest = [] \<or> hd rest = NUL"
    and v: "NUL \<notin> set v" "CHR ''/'' \<notin> set v"
  shows "\<exists>b. scan_back buf (length pre) (length pre) = (b, None)"
proof -
  have b0: "buf = pre @ [] @ CHR ''/'' # v @ rest" by (simp add: buf)
  have e: "NUL \<notin> set ([] @ CHR ''/'' # v)" "CHR ''/'' \<notin> set ([] :: char list)"
    "NUL \<notin> set ([] :: char list)" using v(1) by simp_all
  have "strrchr buf (length pre) CHR ''/'' = Some (length pre + length ([] :: char list))"
    by (subst b0) (rule strrchr_in_buffer [OF e(1) rest v(2)])
  then have r: "strrchr buf (length pre) CHR ''/'' = Some (length pre)" by simp
  have b1: "buf = pre @ [] @ CHR ''/'' # (v @ rest)" by (simp add: buf)
  have "buf[length pre + length ([] :: char list) := CHR ''/''] = buf"
    by (subst b1, subst b1) (rule update_in_buffer)
  then have id: "buf[length pre := CHR ''/''] = buf" by simp
  have "buf[length pre + length ([] :: char list) := NUL] = pre @ [] @ NUL # (v @ rest)"
    by (subst b1) (rule update_in_buffer)
  then have chop: "buf[length pre := NUL] = pre @ [] @ (NUL # v @ rest)" by simp
  have hdN: "NUL # v @ rest = [] \<or> hd (NUL # v @ rest) = NUL" by simp
  have n2: "strrchr (buf[length pre := NUL]) (length pre) CHR ''/'' = None"
    unfolding chop by (rule strrchr_none_in_buffer [OF e(3) hdN e(2)])
  have "scan_back buf (length pre) (length pre)
          = (buf[length pre := NUL, length pre := CHR ''/''], None)"
    by (subst scan_back.simps) (simp only: r id option.case n2)
  then show ?thesis by blast
qed

lemma scan_back_result:
  assumes buf: "buf = pre @ path @ rest"
    and rest: "rest = [] \<or> hd rest = NUL"
    and path: "path \<noteq> []" "hd path = CHR ''/''" "NUL \<notin> set path"
  shows "(\<exists>b. scan_back buf (length pre) (length pre) = (b, None))
     \<or> (\<exists>stem1 ps. path = stem1 @ pairs_text ps \<and> pairs_ok ps
           \<and> scan_back buf (length pre) (length pre) = (buf, Some (length pre + length stem1)))"
proof -
  from path(1,2) have "CHR ''/'' \<in> set path" by (cases path) auto
  then obtain y v where y: "path = y @ CHR ''/'' # v" and v: "CHR ''/'' \<notin> set v"
    by (auto dest: split_list_last)
  show ?thesis
  proof (cases y)
    case Nil
    have b: "buf = pre @ CHR ''/'' # v @ rest" by (simp add: buf y Nil)
    have "NUL \<notin> set v" using path(3) by (simp add: y)
    from scan_back_single_slash [OF b rest this v] show ?thesis by blast
  next
    case (Cons y0 ys)
    with y path(2) have "y0 = CHR ''/''" by simp
    with Cons have "CHR ''/'' \<in> set y" by simp
    then obtain stem seg where y2: "y = stem @ CHR ''/'' # seg" and sg: "CHR ''/'' \<notin> set seg"
      by (auto dest: split_list_last)
    have p: "path = stem @ CHR ''/'' # seg @ CHR ''/'' # v" by (simp add: y y2)
    have st: "stem = [] \<or> hd stem = CHR ''/''" using path(2) by (cases stem) (auto simp: p)
    have nn: "NUL \<notin> set (stem @ seg @ v)" using path(3) by (simp add: p)
    have b: "buf = pre @ stem @ CHR ''/'' # seg @ CHR ''/'' # v @ rest" by (simp add: buf p)
    note first = scan_back_first [OF nn rest sg v st b]
    show ?thesis
    proof (cases "valid_ai_form seg")
      case False
      with first show ?thesis by simp
    next
      case va: True
      show ?thesis
      proof (cases "seg \<in> set dl_pkeys")
        case True
        with first va have "scan_back buf (length pre) (length pre)
                              = (buf, Some (length pre + length stem))" by simp
        moreover have "path = stem @ pairs_text [(seg, v)]" by (simp add: p pairs_text_def)
        moreover have "pairs_ok [(seg, v)]" using sg v by (simp add: pairs_ok_def)
        ultimately show ?thesis by blast
      next
        case False
        with first va have step: "scan_back buf (length pre) (length pre)
            = scan_back (buf[length pre + length stem := NUL]) (length pre)
                (length pre + length stem)" by simp
        have nn2: "NUL \<notin> set (stem @ (seg @ CHR ''/'' # v))" using nn by simp
        have b2: "buf = pre @ stem @ CHR ''/'' # (seg @ CHR ''/'' # v) @ rest" by (simp add: b)
        from scan_back_chain [OF rest nn2 st b2]
        show ?thesis
        proof
          assume "\<exists>b. scan_back (buf[length pre + length stem := NUL]) (length pre)
                     (length pre + length stem) = (b, None)"
          with step show ?thesis by simp
        next
          assume "\<exists>stem1 ps. stem = stem1 @ pairs_text ps \<and> pairs_ok ps
             \<and> scan_back (buf[length pre + length stem := NUL]) (length pre)
                  (length pre + length stem) = (buf, Some (length pre + length stem1))"
          then obtain stem1 ps where h: "stem = stem1 @ pairs_text ps" "pairs_ok ps"
            "scan_back (buf[length pre + length stem := NUL]) (length pre)
                  (length pre + length stem) = (buf, Some (length pre + length stem1))"
            by blast
          have "path = stem1 @ pairs_text (ps @ [(seg, v)])"
            by (simp add: p h(1) pairs_text_snoc)
          moreover have "pairs_ok (ps @ [(seg, v)])" using h(2) sg v by (simp add: pairs_ok_def)
          ultimately show ?thesis using step h(3) by metis
        qed
      qed
    qed
  qed
qed

lemma path_loop_pairs_returns:
  assumes rest: "rest = [] \<or> hd rest = NUL"
  shows "pairs_ok ps \<Longrightarrow> NUL \<notin> set (pairs_text ps) \<Longrightarrow>
         buf = pre @ pairs_text ps @ rest \<Longrightarrow>
         path_loop buf (length pre) aival ctx \<noteq> Crash"
proof (induction ps arbitrary: pre aival ctx)
  case Nil
  then have b: "buf = pre @ rest" by (simp add: pairs_text_def)
  have pk: "peek buf (length pre) = NUL" unfolding b by (rule peek_at_rest [OF rest])
  show ?case by (subst path_loop.simps) (simp add: pk)
next
  case (Cons av ps)
  obtain a v where av: "av = (a, v)" by (cases av)
  from Cons.prems(1) have ok: "CHR ''/'' \<notin> set a" "CHR ''/'' \<notin> set v" "pairs_ok ps"
    by (simp_all add: av pairs_ok_def)
  from Cons.prems(2) have nn: "NUL \<notin> set a" "NUL \<notin> set v" "NUL \<notin> set (pairs_text ps)"
    by (simp_all add: av pairs_text_Cons)
  define tl where "tl = pairs_text ps"
  have b: "buf = pre @ CHR ''/'' # a @ CHR ''/'' # v @ tl @ rest"
    using Cons.prems(3) by (simp add: av pairs_text_Cons tl_def)
  define p where "p = length pre"
  define r where "r = p + 1 + length a"
  define e where "e = r + 1 + length v"
  have pk: "peek buf p \<noteq> NUL" by (simp add: b p_def peek_def nth_append)
  have b1: "buf = (pre @ ''/'') @ a @ CHR ''/'' # (v @ tl) @ rest" by (simp add: b)
  have n1: "NUL \<notin> set (a @ CHR ''/'' # (v @ tl))" using nn by (simp add: tl_def)
  have "strchr buf (length (pre @ ''/'')) CHR ''/'' = Some (length (pre @ ''/'') + length a)"
    by (subst b1) (rule strchr_in_buffer [OF n1 rest ok(1)])
  then have sr: "strchr buf (p + 1) CHR ''/'' = Some r" by (simp add: r_def p_def)
  have r1: "r + 1 = length (pre @ CHR ''/'' # a @ ''/'')" by (simp add: r_def p_def)
  have ve: "value_end buf (r + 1) = e"
  proof (cases ps)
    case Nil
    then have t0: "tl = []" by (simp add: tl_def pairs_text_def)
    have b2: "buf = (pre @ CHR ''/'' # a @ ''/'') @ v @ rest" by (simp add: b t0)
    have sn: "strchr buf (r + 1) CHR ''/'' = None"
      unfolding r1 by (subst b2) (rule strchr_none_in_buffer [OF nn(2) rest ok(2)])
    have cw: "cstr buf (r + 1) = v"
      unfolding r1 by (subst b2) (rule cstr_in_buffer [OF nn(2) rest])
    show ?thesis unfolding value_end_def sn strlen_def cw by (simp add: e_def)
  next
    case (Cons av' ps')
    then obtain tl' where tl': "tl = CHR ''/'' # tl'"
      by (cases av') (simp add: tl_def pairs_text_Cons)
    have b2: "buf = (pre @ CHR ''/'' # a @ ''/'') @ v @ CHR ''/'' # tl' @ rest"
      by (simp add: b tl')
    have n2: "NUL \<notin> set (v @ CHR ''/'' # tl')" using nn(2,3) by (simp add: tl' [symmetric] tl_def)
    have "strchr buf (r + 1) CHR ''/'' = Some (r + 1 + length v)"
      unfolding r1 by (subst b2) (rule strchr_in_buffer [OF n2 rest ok(2)])
    then show ?thesis unfolding value_end_def e_def by (simp only: option.case)
  qed
  define pre' where "pre' = pre @ CHR ''/'' # a @ CHR ''/'' # v"
  have el: "e = length pre'" by (simp add: e_def r_def p_def pre'_def)
  have b3: "buf = pre' @ pairs_text ps @ rest" by (simp add: b pre'_def tl_def)
  have IH: "\<And>aival ctx. path_loop buf e aival ctx \<noteq> Crash"
    unfolding el by (rule Cons.IH [OF ok(3) nn(3) b3])
  obtain aival1 vlen where U: "URIunescape aival GS1_DL_MAX_AI_LEN buf (r + 1)
                        (e - (r + 1)) False = (aival1, vlen)"
    by (cases "URIunescape aival GS1_DL_MAX_AI_LEN buf (r + 1) (e - (r + 1)) False")
  have unf: "path_loop buf p aival ctx =
     (if e = r + 1
      then GotoFail (ctx\<lparr>err := take 127
             (''AI ('' @ prec_s (r - (p + 1)) buf (p + 1) @ '') value path element is empty'')\<rparr>)
      else if vlen = 0
      then GotoFail (ctx\<lparr>err := ''Decoded AI ('' @ prec_s (r - (p + 1)) buf (p + 1)
                             @ '') from DL path info too long''\<rparr>)
      else (case store_element ctx buf (p + 1) (r - (p + 1)) aival1 vlen of
              Continue aival2 ctx2 \<Rightarrow> path_loop buf e aival2 ctx2
            | GotoFail c \<Rightarrow> GotoFail c
            | Crash \<Rightarrow> Crash))"
    by (subst path_loop.simps) (simp only: pk sr ve U if_False option.case prod.case)
  show ?case
  proof (cases "store_element ctx buf (p + 1) (r - (p + 1)) aival1 vlen")
    case (Continue aival2 ctx2)
    with unf IH [of aival2 ctx2] show ?thesis unfolding p_def by auto
  next
    case (GotoFail c)
    with unf show ?thesis unfolding p_def by auto
  next
    case Crash
    with store_element_no_crash show ?thesis by blast
  qed
qed

lemma query_loop_returns: "query_loop buf p aival ctx \<noteq> Crash"
proof (induction buf p aival ctx rule: query_loop.induct)
  case (1 buf p aival ctx)
  show ?case
    apply (subst query_loop.simps)
    using 1 store_element_no_crash
    apply (auto split: option.splits prod.splits flow.splits simp: Let_def)
    done
qed

lemma parse_returns:
  assumes nn: "NUL \<notin> set dlData"
  shows "\<exists>ret c b. gs1_parseDLuri ctx dlData = Some (ret, c, b)"
proof -
  have tr: "\<exists>ret c b. t = (ret, c, b)" for t :: "bool \<times> gs1DLparser \<times> char list"
    by (cases t) auto
  from split_uri_cases [OF nn] show ?thesis
  proof
    assume "\<exists>m. split_uri dlData = Inl m"
    then obtain m where "split_uri dlData = Inl m" ..
    then show ?thesis by (simp add: gs1_parseDLuri_def tr)
  next
    assume "\<exists>scheme host path tail. dlData = scheme @ host @ path @ tail
          \<and> (scheme = ''http://'' \<or> scheme = ''https://'')
          \<and> host \<noteq> [] \<and> CHR ''/'' \<notin> set host
          \<and> path \<noteq> [] \<and> hd path = CHR ''/'' \<and> CHR ''?'' \<notin> set path \<and> CHR ''#'' \<notin> set path
          \<and> (tail = [] \<or> hd tail = CHR ''?'' \<or> hd tail = CHR ''#'')
          \<and> set dlData \<subseteq> set uriCharacters"
    then obtain scheme host path tail where u: "dlData = scheme @ host @ path @ tail"
      and sch: "scheme = ''http://'' \<or> scheme = ''https://''"
      and host: "host \<noteq> []" "CHR ''/'' \<notin> set host"
      and path: "path \<noteq> []" "hd path = CHR ''/''" "CHR ''?'' \<notin> set path" "CHR ''#'' \<notin> set path"
      and tail: "tail = [] \<or> hd tail = CHR ''?'' \<or> hd tail = CHR ''#''"
      and legal: "set dlData \<subseteq> set uriCharacters" by blast
    define pre where "pre = scheme @ host"
    from split_uri_shape [OF u sch host path tail legal]
    obtain rest qp fr where sp0: "split_uri dlData
              = Inr (length (scheme @ host), (scheme @ host) @ path @ rest, qp, fr)"
      and rest: "rest = [] \<or> hd rest = NUL" by blast
    define buf where "buf = pre @ path @ rest"
    have sp: "split_uri dlData = Inr (length pre, buf, qp, fr)"
      using sp0 by (simp add: pre_def buf_def)
    have np: "NUL \<notin> set path" using nn by (simp add: u)
    from scan_back_result [OF buf_def rest path(1,2) np]
    show ?thesis
    proof
      assume "\<exists>b. scan_back buf (length pre) (length pre) = (b, None)"
      then obtain b1 where "scan_back buf (length pre) (length pre) = (b1, None)" ..
      from parse_after_failed_search [OF sp this] show ?thesis by blast
    next
      assume "\<exists>stem1 ps. path = stem1 @ pairs_text ps \<and> pairs_ok ps
           \<and> scan_back buf (length pre) (length pre) = (buf, Some (length pre + length stem1))"
      then obtain stem1 ps where h: "path = stem1 @ pairs_text ps" "pairs_ok ps"
        and sb: "scan_back buf (length pre) (length pre) = (buf, Some (length pre + length stem1))"
        by blast
      have nps: "NUL \<notin> set (pairs_text ps)" using np by (simp add: h(1))
      have b3: "buf = (pre @ stem1) @ pairs_text ps @ rest" by (simp add: buf_def h(1))
      define c0 where "c0 = ctx\<lparr>numAIs := 0, aiBuf := (aiBuf ctx)[0 := NUL], err := []\<rparr>"
      have l: "length pre + length stem1 = length (pre @ stem1)" by simp
      have nc: "path_loop buf (length pre + length stem1) aival_start c0 \<noteq> Crash"
        unfolding l by (rule path_loop_pairs_returns [OF rest h(2) nps b3])
      show ?thesis
      proof (cases "path_loop buf (length pre + length stem1) aival_start c0")
        case Crash
        with nc show ?thesis by simp
      next
        case (GotoFail c)
        then show ?thesis
          by (simp add: gs1_parseDLuri_def sp sb c0_def [symmetric] tr)
      next
        case (Continue aival1 ctx1)
        show ?thesis
        proof (cases qp)
          case None
          with Continue show ?thesis
            by (simp add: gs1_parseDLuri_def sp sb c0_def [symmetric] tr)
        next
          case (Some q)
          show ?thesis
          proof (cases "query_loop buf q aival1 ctx1")
            case Crash
            with query_loop_returns show ?thesis by blast
          next
            case (GotoFail c)
            with Continue Some show ?thesis
              by (simp add: gs1_parseDLuri_def sp sb c0_def [symmetric] tr)
          next
            case c2: (Continue aival2 ctx2)
            with Continue Some show ?thesis
              by (simp add: gs1_parseDLuri_def sp sb c0_def [symmetric] tr)
          qed
        qed
      qed
    qed
  qed
qed

text \<open>
  C8. Every call of \<open>gs1_parseDLuri\<close> on a string returns. Whenever it returns: if it
  returns false, \<open>numAIs\<close> is zero and \<open>err\<close> is not empty; if it returns true, \<open>err\<close> is
  empty.
\<close>

theorem parse_result_error_field:
  "(NUL \<notin> set dlData \<longrightarrow> (\<exists>ret c b. gs1_parseDLuri ctx dlData = Some (ret, c, b)))
   \<and> (gs1_parseDLuri ctx dlData = Some (ret, c, b) \<longrightarrow>
        (if ret then err c = [] else numAIs c = 0 \<and> err c \<noteq> []))"
proof (intro conjI impI)
  assume "NUL \<notin> set dlData"
  then show "\<exists>ret c b. gs1_parseDLuri ctx dlData = Some (ret, c, b)" by (rule parse_returns)
next
  assume "gs1_parseDLuri ctx dlData = Some (ret, c, b)"
  then show "if ret then err c = [] else numAIs c = 0 \<and> err c \<noteq> []"
    by (rule error_field_when_returned)
qed

theorem parse_result_error_field_witness:
  "(\<exists>c b. gs1_parseDLuri \<lparr>aiBuf = [NUL], aiData = (\<lambda>i. \<lparr>ai = 0, ailen = 0, val = 0, vallen = 0, fnc1 = False\<rparr>),
        numAIs = 7, err = ''stale''\<rparr> ''http://a/b'' = Some (False, c, b)
      \<and> numAIs c = 0 \<and> err c \<noteq> [])
   \<and> (\<exists>c b. gs1_parseDLuri \<lparr>aiBuf = [NUL], aiData = (\<lambda>i. \<lparr>ai = 0, ailen = 0, val = 0, vallen = 0, fnc1 = False\<rparr>),
        numAIs = 7, err = ''stale''\<rparr> ''http://a/00/1'' = Some (True, c, b)
      \<and> err c = [])
   \<and> (\<exists>ret c b. gs1_parseDLuri zeroed_context ''http://a/00/1/2'' = Some (ret, c, b))"
proof -
  let ?C = "\<lparr>aiBuf = [NUL], aiData = (\<lambda>i. \<lparr>ai = 0, ailen = 0, val = 0, vallen = 0, fnc1 = False\<rparr>),
        numAIs = 7, err = ''stale''\<rparr>"
  have "case gs1_parseDLuri ?C ''http://a/b'' of None \<Rightarrow> False | Some (ret, c, b) \<Rightarrow> \<not> ret"
    by code_simp
  then obtain c1 b1 where p1: "gs1_parseDLuri ?C ''http://a/b'' = Some (False, c1, b1)"
    by (auto split: option.splits)
  have "case gs1_parseDLuri ?C ''http://a/00/1'' of None \<Rightarrow> False | Some (ret, c, b) \<Rightarrow> ret"
    by code_simp
  then obtain c2 b2 where p2: "gs1_parseDLuri ?C ''http://a/00/1'' = Some (True, c2, b2)"
    by (auto split: option.splits)
  have 1: "numAIs c1 = 0 \<and> err c1 \<noteq> []"
    using parse_result_error_field [of "''http://a/b''" ?C False c1 b1] p1 by simp
  have 2: "err c2 = []"
    using parse_result_error_field [of "''http://a/00/1''" ?C True c2 b2] p2 by simp
  have 3: "\<exists>ret c b. gs1_parseDLuri zeroed_context ''http://a/00/1/2'' = Some (ret, c, b)"
    using parse_result_error_field [of "''http://a/00/1/2''" zeroed_context] by simp
  from 1 2 3 p1 p2 show ?thesis by blast
qed

text \<open>
  C10. Every call of \<open>gs1_parseDLuri\<close> on a string returns, and no call that returns
  leaves one of the two "Decoded AI ... too long" messages in \<open>err\<close>: \<open>URIunescape\<close>
  with capacity \<open>GS1_DL_MAX_AI_LEN\<close> returns at least 1 on a value that is not empty, and
  both loops reject an empty value before they decode. It returns at most the capacity:
  the length of the decoded value or the capacity, whichever is smaller, so a longer
  value is cut to the capacity.
\<close>

theorem decoded_too_long_is_unreachable:
  "(NUL \<notin> set dlData \<longrightarrow> (\<exists>ret c b. gs1_parseDLuri ctx dlData = Some (ret, c, b)))
   \<and> (gs1_parseDLuri ctx dlData = Some (ret, c, b) \<longrightarrow> \<not> too_long_error (err c))
   \<and> too_long_error (''Decoded AI ('' @ t @ '') from DL path info too long'')
   \<and> too_long_error (''Decoded AI ('' @ t @ '') value from DL query params too long'')
   \<and> (0 < inlen \<longrightarrow> 0 < snd (URIunescape out GS1_DL_MAX_AI_LEN buf src inlen q))
   \<and> snd (URIunescape out GS1_DL_MAX_AI_LEN buf src inlen q) \<le> GS1_DL_MAX_AI_LEN
   \<and> (inlen < 2 ^ 64 \<and> (inlen = 1 \<longrightarrow> \<not> isxdigit (peek buf (src + 1))) \<longrightarrow>
        snd (URIunescape out GS1_DL_MAX_AI_LEN buf src inlen q)
          = min GS1_DL_MAX_AI_LEN (length (percent_decode q (bytes_at buf src inlen))))"
proof (rule conjI)
  show "NUL \<notin> set dlData \<longrightarrow> (\<exists>ret c b. gs1_parseDLuri ctx dlData = Some (ret, c, b))"
    by (rule impI) (rule parse_returns)
next
  show "(gs1_parseDLuri ctx dlData = Some (ret, c, b) \<longrightarrow> \<not> too_long_error (err c))
   \<and> too_long_error (''Decoded AI ('' @ t @ '') from DL path info too long'')
   \<and> too_long_error (''Decoded AI ('' @ t @ '') value from DL query params too long'')
   \<and> (0 < inlen \<longrightarrow> 0 < snd (URIunescape out GS1_DL_MAX_AI_LEN buf src inlen q))
   \<and> snd (URIunescape out GS1_DL_MAX_AI_LEN buf src inlen q) \<le> GS1_DL_MAX_AI_LEN
   \<and> (inlen < 2 ^ 64 \<and> (inlen = 1 \<longrightarrow> \<not> isxdigit (peek buf (src + 1))) \<longrightarrow>
        snd (URIunescape out GS1_DL_MAX_AI_LEN buf src inlen q)
          = min GS1_DL_MAX_AI_LEN (length (percent_decode q (bytes_at buf src inlen))))"
    by (rule too_long_never_set)
qed

theorem decoded_too_long_is_unreachable_witness:
  "(\<exists>c b. gs1_parseDLuri zeroed_context (''https://a/00/'' @ replicate 100 CHR ''1'') = Some (True, c, b)
     \<and> vallen (aiData c 0) = 90 \<and> \<not> too_long_error (err c))
   \<and> 0 < snd (URIunescape aival_start GS1_DL_MAX_AI_LEN ''%'' 0 1 True)
   \<and> snd (URIunescape aival_start GS1_DL_MAX_AI_LEN (replicate 100 CHR ''1'') 0 100 False)
       = GS1_DL_MAX_AI_LEN"
proof -
  let ?C = "zeroed_context"
  let ?U = "''https://a/00/'' @ replicate 100 CHR ''1''"
  have "case gs1_parseDLuri ?C ?U of None \<Rightarrow> False
        | Some (ret, c, b) \<Rightarrow> ret \<and> vallen (aiData c 0) = 90"
    by code_simp
  then obtain c b where p: "gs1_parseDLuri ?C ?U = Some (True, c, b)" and v: "vallen (aiData c 0) = 90"
    by (auto split: option.splits)
  from decoded_too_long_is_unreachable [of ?U ?C True c b] p
  have 1: "\<not> too_long_error (err c)" by blast
  from decoded_too_long_is_unreachable [of _ _ _ _ _ _ 1 aival_start "''%''" 0 True]
  have 2: "0 < snd (URIunescape aival_start GS1_DL_MAX_AI_LEN ''%'' 0 1 True)" by simp
  have l: "length (percent_decode False (bytes_at (replicate 100 CHR ''1'') 0 100)) = 100"
    by code_simp
  from decoded_too_long_is_unreachable
         [of _ _ _ _ _ _ 100 aival_start "replicate 100 CHR ''1''" 0 False] l
  have 3: "snd (URIunescape aival_start GS1_DL_MAX_AI_LEN (replicate 100 CHR ''1'') 0 100 False)
       = GS1_DL_MAX_AI_LEN" by (simp add: GS1_DL_MAX_AI_LEN_def)
  from p v 1 2 3 show ?thesis by blast
qed

end
